theory Spec2Isabelle
  imports Main "HOL-Library.Finite_Map" "HOL-Library.Multiset" "HOL-Library.Sublist"
    "HOL-Library.Word"
begin

text \<open>
  The client-side permission evaluation of the Permis.io Go SDK: scope resolution, the
  expansion of roles through \<^verbatim>\<open>extends\<close>, the evaluation of one check and of a
  batch, and the retrying transport. Calls to the remote service and the choices of the
  Go runtime are parameters of the definitions.
\<close>

section \<open>Errors\<close>

text \<open>
  \<^verbatim>\<open>api.PermisError\<close> is the structured API error. The \<^verbatim>\<open>Details\<close> map is never
  filled by the code that is modelled here and is left out.
\<close>

record PermisError =
  Message :: string
  Code :: string
  StatusCode :: int

text \<open>
  A Go \<^verbatim>\<open>error\<close> value is either a \<^verbatim>\<open>*PermisError\<close> or an error of some other
  dynamic type (network errors, \<^verbatim>\<open>context.Canceled\<close>, the results of
  \<^verbatim>\<open>fmt.Errorf\<close>); of the latter only the text is observable.
\<close>

datatype error = PermisErr PermisError | OtherError string

text \<open>Decimal rendering of an integer, as the verb \<^verbatim>\<open>%d\<close> prints it.\<close>

fun digits :: "nat \<Rightarrow> string" where
  "digits n =
     (if n < 10 then [''0123456789'' ! n]
      else digits (n div 10) @ [''0123456789'' ! (n mod 10)])"

declare digits.simps [simp del]

definition itoa :: "int \<Rightarrow> string" where
  "itoa i = (if i < 0 then CHR ''-'' # digits (nat (- i)) else digits (nat i))"

text \<open>\<^verbatim>\<open>func (e *PermisError) Error() string\<close>, and the text of any other error.\<close>

fun Error :: "error \<Rightarrow> string" where
  "Error (PermisErr e) =
     (if Code e \<noteq> ''''
      then ''['' @ Code e @ ''] '' @ Message e @ '' (status: '' @ itoa (StatusCode e) @ '')''
      else Message e @ '' (status: '' @ itoa (StatusCode e) @ '')'')"
| "Error (OtherError s) = s"

section \<open>Configuration and client state\<close>

text \<open>
  Of \<^verbatim>\<open>config.Config\<close> the fields that decide control flow are kept. Debug logging
  only writes to the logger and is not modelled.
\<close>

record Config =
  ProjectID :: string
  EnvironmentID :: string
  RetryAttempts :: int
  ThrowOnError :: bool

definition DefaultRetryAttempts :: int where
  "DefaultRetryAttempts = 3"

definition HasScope :: "Config \<Rightarrow> bool" where
  "HasScope c \<longleftrightarrow> Config.ProjectID c \<noteq> '''' \<and> Config.EnvironmentID c \<noteq> ''''"

definition UpdateScope :: "Config \<Rightarrow> string \<Rightarrow> string \<Rightarrow> Config" where
  "UpdateScope c projectID environmentID =
     c\<lparr>Config.ProjectID := projectID, Config.EnvironmentID := environmentID\<rparr>"

record Client =
  config :: Config
  scopeInitialized :: bool

record APIKeyScope =
  ProjectID :: string
  EnvironmentID :: string

section \<open>Scope resolution\<close>

text \<open>
  What the single GET of \<^verbatim>\<open>fetchAndSetScope\<close> meets: the request cannot be built,
  the HTTP client fails, or a response arrives with a status, a body and the outcome of
  decoding the body as an \<^verbatim>\<open>APIKeyScope\<close>.
\<close>

datatype scope_fetch =
    NewRequestFailed error
  | DoFailed error
  | Responded int string "error + APIKeyScope"

record RoleAssignmentListParams =
  User :: string
  Tenant :: string

record RoleListParams =
  PerPage :: int

text \<open>The network requests a call issues, in order.\<close>

datatype api_call =
    ScopeCall
  | RoleAssignmentsListCall RoleAssignmentListParams
  | RolesListCall RoleListParams

definition remediation :: string where
  "remediation = ''Either provide projectId and environmentId in config, or ensure the API key has valid scope''"

definition fetchAndSetScope :: "scope_fetch \<Rightarrow> Client \<Rightarrow> error option \<times> Client \<times> api_call list" where
  "fetchAndSetScope net c =
     (case net of
        NewRequestFailed err \<Rightarrow>
          (Some (OtherError (''failed to create request: '' @ Error err)), c, [])
      | DoFailed err \<Rightarrow>
          (if \<not> HasScope (config c)
           then (Some (OtherError (''failed to fetch API key scope: '' @ Error err @ ''. '' @ remediation)),
                 c, [ScopeCall])
           else (None, c, [ScopeCall]))
      | Responded status body decoded \<Rightarrow>
          (if status \<noteq> 200
           then (if \<not> HasScope (config c)
                 then (Some (OtherError (''failed to fetch API key scope: status '' @ itoa status
                               @ '', body: '' @ body @ ''. '' @ remediation)),
                       c, [ScopeCall])
                 else (None, c, [ScopeCall]))
           else (case decoded of
                   Inl err \<Rightarrow>
                     (if \<not> HasScope (config c)
                      then (Some (OtherError (''failed to decode API key scope: '' @ Error err)),
                            c, [ScopeCall])
                      else (None, c, [ScopeCall]))
                 | Inr scope \<Rightarrow>
                     (None,
                      c\<lparr>config := UpdateScope (config c) (APIKeyScope.ProjectID scope)
                                     (APIKeyScope.EnvironmentID scope)\<rparr>,
                      [ScopeCall]))))"

text \<open>
  \<^verbatim>\<open>ensureScope\<close>, as one caller runs it: the fast path, the same test again under the
  lock, then the fetch; \<^verbatim>\<open>scopeInitialized\<close> is set only when the fetch returned no
  error.
\<close>

definition ensureScope :: "scope_fetch \<Rightarrow> Client \<Rightarrow> error option \<times> Client \<times> api_call list" where
  "ensureScope net c =
     (if scopeInitialized c \<or> HasScope (config c) then (None, c, [])
      else if scopeInitialized c \<or> HasScope (config c) then (None, c, [])
      else (case fetchAndSetScope net c of
              (Some err, c', calls) \<Rightarrow> (Some err, c', calls)
            | (None, c', calls) \<Rightarrow> (None, c'\<lparr>scopeInitialized := True\<rparr>, calls)))"

text \<open>A run of \<^verbatim>\<open>ensureScope\<close> calls on one client, each meeting its own network.\<close>

fun ensureScope_calls :: "scope_fetch list \<Rightarrow> Client \<Rightarrow> Client \<times> api_call list" where
  "ensureScope_calls [] c = (c, [])"
| "ensureScope_calls (net # nets) c =
     (case ensureScope net c of
        (err, c', calls) \<Rightarrow>
          (case ensureScope_calls nets c' of (c'', calls') \<Rightarrow> (c'', calls @ calls')))"

section \<open>Role catalog and permission expansion\<close>

text \<open>
  \<^verbatim>\<open>models.RoleRead\<close> with the fields the evaluation reads. The catalog
  \<^verbatim>\<open>map[string]*models.RoleRead\<close> is a finite map from role key to definition.
\<close>

record RoleRead =
  Key :: string
  Permissions :: "string list"
  Extends :: "string list"

type_synonym rolesMap = "(string, RoleRead) fmap"

text \<open>
  The last loop of \<^verbatim>\<open>getRolePermissions\<close>: \<^verbatim>\<open>seen\<close> is the set of strings met so
  far, \<^verbatim>\<open>unique\<close> the slice being appended to.
\<close>

fun removeDuplicates :: "string list \<Rightarrow> string set \<Rightarrow> string list \<Rightarrow> string list" where
  "removeDuplicates [] seen unique = unique"
| "removeDuplicates (perm # permissions) seen unique =
     (if perm \<in> seen then removeDuplicates permissions seen unique
      else removeDuplicates permissions (insert perm seen) (unique @ [perm]))"

text \<open>
  \<^verbatim>\<open>getRolePermissions\<close> mutates the \<^verbatim>\<open>visited\<close> map it is given, and every
  recursive call sees the marks of the calls before it; the model returns the updated
  set with the permissions. \<^verbatim>\<open>extendsLoop\<close> is the loop over \<^verbatim>\<open>role.Extends\<close>,
  with the slice \<^verbatim>\<open>permissions\<close> built so far.
\<close>

function getRolePermissions :: "string \<Rightarrow> rolesMap \<Rightarrow> string set \<Rightarrow> string list \<times> string set"
  and extendsLoop :: "string list \<Rightarrow> rolesMap \<Rightarrow> string list \<Rightarrow> string set \<Rightarrow> string list \<times> string set"
where
  "getRolePermissions roleKey rolesMap visited =
     (if roleKey \<in> visited then ([], visited)
      else (case fmlookup rolesMap roleKey of
              None \<Rightarrow> ([], insert roleKey visited)
            | Some role \<Rightarrow>
                (case extendsLoop (Extends role) rolesMap (Permissions role) (insert roleKey visited) of
                   (permissions, visited') \<Rightarrow> (removeDuplicates permissions {} [], visited'))))"
| "extendsLoop [] rolesMap permissions visited = (permissions, visited)"
| "extendsLoop (parentRoleKey # rest) rolesMap permissions visited =
     (case getRolePermissions parentRoleKey rolesMap visited of
        (parentPermissions, visited') \<Rightarrow>
          extendsLoop rest rolesMap (permissions @ parentPermissions) visited')"
  by pat_completeness auto

text \<open>
  Termination: the number of catalog keys not yet visited strictly drops when a catalog
  role is entered, and cannot grow between one parent and the next, because a call
  never forgets a mark.
\<close>

termination
proof -
  have grows:
    "getRolePermissions_extendsLoop_dom (Inl (roleKey, rolesMap, visited)) \<Longrightarrow>
       visited \<subseteq> snd (getRolePermissions roleKey rolesMap visited)"
    "getRolePermissions_extendsLoop_dom (Inr (parents, rolesMap, permissions, visited)) \<Longrightarrow>
       visited \<subseteq> snd (extendsLoop parents rolesMap permissions visited)"
    for roleKey rolesMap visited parents permissions
  proof (induction roleKey rolesMap visited and parents rolesMap permissions visited
         rule: getRolePermissions_extendsLoop.pinduct)
    case (1 roleKey rolesMap visited)
    then show ?case
      by (auto simp: getRolePermissions.psimps split: option.splits prod.splits)
  next
    case (2 rolesMap permissions visited)
    then show ?case by (simp add: extendsLoop.psimps)
  next
    case (3 parentRoleKey rest rolesMap permissions visited)
    obtain pp v' where call: "getRolePermissions parentRoleKey rolesMap visited = (pp, v')"
      by (cases "getRolePermissions parentRoleKey rolesMap visited")
    from 3(2) call have "visited \<subseteq> v'" by simp
    moreover from 3(3) [of pp v'] call
    have "v' \<subseteq> snd (extendsLoop rest rolesMap (permissions @ pp) v')" by simp
    ultimately show ?case
      using 3(1) call by (simp add: extendsLoop.psimps)
  qed
  show ?thesis
  proof (relation "(\<lambda>x. case x of Inl (k, m, v) \<Rightarrow> card (fmdom' m - v)
                           | Inr (ps, m, perms, v) \<Rightarrow> card (fmdom' m - v))
                   <*mlex*> measure (\<lambda>x. case x of Inl _ \<Rightarrow> 0
                                             | Inr (ps, m, perms, v) \<Rightarrow> Suc (length ps))",
         goal_cases)
    case 1
    then show ?case by (simp add: wf_mlex)
  next
    case (2 roleKey rolesMap visited role)
    then have "roleKey \<in> fmdom' rolesMap - visited"
      by (simp add: fmdom'I)
    then have "card (fmdom' rolesMap - insert roleKey visited) < card (fmdom' rolesMap - visited)"
      by (metis Diff_insert card_Diff1_less finite_Diff finite_fmdom')
    then show ?case by (simp add: mlex_prod_def)
  next
    case (3 parentRoleKey rest rolesMap permissions visited)
    then show ?case by (simp add: mlex_prod_def)
  next
    case (4 parentRoleKey rest rolesMap permissions visited x y)
    then have "visited \<subseteq> y"
      using grows(1) [of parentRoleKey rolesMap visited] by (metis snd_conv)
    then have "card (fmdom' rolesMap - y) \<le> card (fmdom' rolesMap - visited)"
      by (intro card_mono) auto
    then show ?case by (auto simp add: mlex_prod_def)
  qed
qed

declare getRolePermissions.simps [simp del]

text \<open>
  What the specification says of the result, in its words: the list without its
  repeats, each string kept where it is first seen.
\<close>

fun first_seen :: "string list \<Rightarrow> string list" where
  "first_seen [] = []"
| "first_seen (x # xs) = x # removeAll x (first_seen xs)"

text \<open>
  What the specification says of the traversal, stated without the function: a role
  key is reached from \<^verbatim>\<open>roleKey\<close> when a path of \<^verbatim>\<open>extends\<close> edges leads to it
  from \<^verbatim>\<open>roleKey\<close> and no key on the path, its two ends included, is marked in
  \<^verbatim>\<open>visited\<close>. Keys absent from the catalog can be reached, and have no edges.
\<close>

inductive reachable :: "rolesMap \<Rightarrow> string set \<Rightarrow> string \<Rightarrow> string \<Rightarrow> bool"
  for rolesMap :: rolesMap and visited :: "string set" and roleKey :: string where
  start: "roleKey \<notin> visited \<Longrightarrow> reachable rolesMap visited roleKey roleKey"
| step: "reachable rolesMap visited roleKey k \<Longrightarrow> fmlookup rolesMap k = Some role \<Longrightarrow>
         parent \<in> set (Extends role) \<Longrightarrow> parent \<notin> visited \<Longrightarrow>
         reachable rolesMap visited roleKey parent"

definition reached :: "rolesMap \<Rightarrow> string set \<Rightarrow> string \<Rightarrow> string set" where
  "reached rolesMap visited roleKey = {k. reachable rolesMap visited roleKey k}"

text \<open>The permissions declared by the catalog roles among a set of keys.\<close>

definition declaredBy :: "rolesMap \<Rightarrow> string set \<Rightarrow> string set" where
  "declaredBy rolesMap keys =
     {perm. \<exists>k role. k \<in> keys \<and> fmlookup rolesMap k = Some role \<and> perm \<in> set (Permissions role)}"

text \<open>
  The expansions of the parents, one per entry of \<^verbatim>\<open>extends\<close> in declaration
  order: each parent is expanded with the marks it is given and whatever the parents
  before it reached.
\<close>

fun parentExpansions :: "string list \<Rightarrow> rolesMap \<Rightarrow> string set \<Rightarrow> string list list" where
  "parentExpansions [] rolesMap visited = []"
| "parentExpansions (p # ps) rolesMap visited =
     fst (getRolePermissions p rolesMap visited)
       # parentExpansions ps rolesMap (visited \<union> reached rolesMap visited p)"

section \<open>Permission evaluation\<close>

record User =
  Key :: string

type_synonym Action = string

record Resource =
  Type :: string
  Key :: string
  Tenant :: string

record RoleAssignmentRead =
  User :: string
  Role :: string
  Tenant :: string

record RoleList =
  Data :: "RoleRead list"

record CheckDebugInfo =
  MatchedRoles :: "string list"
  MatchedPermissions :: "string list"

record CheckResponse =
  Allowed :: bool
  Reason :: string
  Debug :: "CheckDebugInfo option"

text \<open>
  What lies outside one evaluation: the network met by the scope fetch, the results of
  \<^verbatim>\<open>Api.RoleAssignments.List\<close> and \<^verbatim>\<open>Api.Roles.List\<close> (an error, or the decoded
  list), and the order in which \<^verbatim>\<open>range\<close> walks the keys of a Go map, which the
  language leaves open: \<^verbatim>\<open>rangeOrder\<close> gives each key its rank in the walk (keys of
  equal rank are walked in insertion order). Every order of the keys is the walk of
  some ranking, and every walk visits each key once.
\<close>

record remote =
  scopeFetch :: scope_fetch
  RoleAssignments_List :: "RoleAssignmentListParams \<Rightarrow> error + RoleAssignmentRead list"
  Roles_List :: "RoleListParams \<Rightarrow> error + RoleList"
  rangeOrder :: "string \<Rightarrow> nat"

text \<open>\<^verbatim>\<open>strings.Join\<close>.\<close>

fun Join :: "string list \<Rightarrow> string \<Rightarrow> string" where
  "Join [] sep = ''''"
| "Join [x] sep = x"
| "Join (x # y # ys) sep = x @ sep @ Join (y # ys) sep"

text \<open>
  The key set \<^verbatim>\<open>roleKeys\<close> built from the assignments, as the list of its keys in
  insertion order; writing a key that is present changes nothing.
\<close>

definition roleKeysOf :: "RoleAssignmentRead list \<Rightarrow> string list" where
  "roleKeysOf assignments =
     fold (\<lambda>assignment roleKeys.
             if Role assignment \<in> set roleKeys then roleKeys else roleKeys @ [Role assignment])
          assignments []"

text \<open>The walk of \<^verbatim>\<open>for roleKey := range roleKeys\<close>.\<close>

definition rangeOver :: "(string \<Rightarrow> nat) \<Rightarrow> string list \<Rightarrow> string list" where
  "rangeOver rank keys = sort_key rank keys"

text \<open>
  The catalog \<^verbatim>\<open>rolesMap\<close> built from the fetched page; a later entry replaces an
  earlier one with the same key.
\<close>

definition rolesMapOf :: "RoleRead list \<Rightarrow> rolesMap" where
  "rolesMapOf data = fold (\<lambda>role rolesMap. fmupd (RoleRead.Key role) role rolesMap) data fmempty"

text \<open>
  The inner loop over one role's permissions: true when the \<^verbatim>\<open>break\<close> is reached.
\<close>

fun permissionsLoop :: "string list \<Rightarrow> string \<Rightarrow> string \<Rightarrow> bool" where
  "permissionsLoop [] requiredPermission resourceType = False"
| "permissionsLoop (perm # permissions) requiredPermission resourceType =
     (if perm = requiredPermission \<or> perm = resourceType @ '':*'' \<or> perm = ''*:*''
      then True
      else permissionsLoop permissions requiredPermission resourceType)"

text \<open>
  The outer loop over the role keys, each expanded with a fresh \<^verbatim>\<open>visited\<close> map;
  it appends to \<^verbatim>\<open>matchedRoles\<close> and \<^verbatim>\<open>matchedPermissions\<close>.
\<close>

fun rolesLoop ::
  "string list \<Rightarrow> rolesMap \<Rightarrow> string \<Rightarrow> string \<Rightarrow> string list \<Rightarrow> string list
     \<Rightarrow> string list \<times> string list" where
  "rolesLoop [] rolesMap requiredPermission resourceType matchedRoles matchedPermissions =
     (matchedRoles, matchedPermissions)"
| "rolesLoop (roleKey # rest) rolesMap requiredPermission resourceType matchedRoles matchedPermissions =
     (if permissionsLoop (fst (getRolePermissions roleKey rolesMap {})) requiredPermission resourceType
      then rolesLoop rest rolesMap requiredPermission resourceType
             (matchedRoles @ [roleKey]) (matchedPermissions @ [requiredPermission])
      else rolesLoop rest rolesMap requiredPermission resourceType matchedRoles matchedPermissions)"

text \<open>
  \<^verbatim>\<open>CheckWithDetails\<close> returns the error or the response, the client as the call
  leaves it, and the network requests it issued.
\<close>

definition CheckWithDetails ::
  "remote \<Rightarrow> Client \<Rightarrow> User \<Rightarrow> Action \<Rightarrow> Resource
     \<Rightarrow> (error + CheckResponse) \<times> Client \<times> api_call list" where
  "CheckWithDetails net c user action resource =
     (case ensureScope (scopeFetch net) c of
        (Some err, c', calls) \<Rightarrow> (Inl err, c', calls)
      | (None, c', calls) \<Rightarrow>
          (let userKey = User.Key user;
               resourceType = Type resource;
               requiredPermission = resourceType @ '':'' @ action;
               listParams = \<lparr>RoleAssignmentListParams.User = userKey,
                             RoleAssignmentListParams.Tenant =
                               (if Resource.Tenant resource \<noteq> '''' then Resource.Tenant resource else '''')\<rparr>;
               calls1 = calls @ [RoleAssignmentsListCall listParams]
           in case RoleAssignments_List net listParams of
                Inl err \<Rightarrow>
                  (if ThrowOnError (config c') then (Inl err, c', calls1)
                   else (Inr \<lparr>Allowed = False,
                              Reason = ''Error fetching role assignments: '' @ Error err,
                              Debug = None\<rparr>, c', calls1))
              | Inr assignments \<Rightarrow>
                  (if length assignments = 0
                   then (Inr \<lparr>Allowed = False,
                              Reason = ''User '' @ userKey @ '' has no role assignments'',
                              Debug = None\<rparr>, c', calls1)
                   else
                     (let roleKeys = roleKeysOf assignments;
                          roleListParams = \<lparr>PerPage = 100\<rparr>;
                          calls2 = calls1 @ [RolesListCall roleListParams]
                      in case Roles_List net roleListParams of
                           Inl err \<Rightarrow>
                             (if ThrowOnError (config c') then (Inl err, c', calls2)
                              else (Inr \<lparr>Allowed = False,
                                         Reason = ''Error fetching roles: '' @ Error err,
                                         Debug = None\<rparr>, c', calls2))
                         | Inr rolesResponse \<Rightarrow>
                             (let rolesMap = rolesMapOf (Data rolesResponse);
                                  matched = rolesLoop (rangeOver (rangeOrder net) roleKeys) rolesMap
                                              requiredPermission resourceType [] [];
                                  matchedRoles = fst matched;
                                  matchedPermissions = snd matched;
                                  allowed = (length matchedRoles > 0);
                                  reason = (if allowed
                                            then ''Granted by role(s): '' @ Join matchedRoles '', ''
                                            else ''No role grants permission '' @ requiredPermission)
                              in (Inr \<lparr>Allowed = allowed, Reason = reason,
                                        Debug = Some \<lparr>MatchedRoles = matchedRoles,
                                                      MatchedPermissions = matchedPermissions\<rparr>\<rparr>,
                                  c', calls2))))))"

section \<open>Bulk evaluation\<close>

text \<open>
  A value of type \<^verbatim>\<open>interface{}\<close>: a string, a \<^verbatim>\<open>map[string]interface{}\<close>, the nil
  interface, or a value of any other dynamic type.
\<close>

datatype any = AString string | AMap "(string, any) fmap" | ANil | AOther

record CheckRequest =
  User :: any
  Action :: string
  Resource :: any
  Tenant :: string

record BulkCheckResult =
  Request :: CheckRequest
  Response :: CheckResponse

text \<open>The run-time panic of a type assertion \<^verbatim>\<open>x.(string)\<close> without the \<^verbatim>\<open>ok\<close> result.\<close>

datatype panic = InterfaceConversion

text \<open>The checked form \<^verbatim>\<open>v, ok := x.(string)\<close>; a missing map key reads as nil.\<close>

fun stringField :: "(string, any) fmap \<Rightarrow> string \<Rightarrow> string option" where
  "stringField r k = (case fmlookup r k of Some (AString v) \<Rightarrow> Some v | _ \<Rightarrow> None)"

text \<open>The type switch on \<^verbatim>\<open>check.Resource\<close>, then the override by \<^verbatim>\<open>check.Tenant\<close>.\<close>

definition resourceOf :: "CheckRequest \<Rightarrow> Resource" where
  "resourceOf check =
     (let resource =
        (case CheckRequest.Resource check of
           AString r \<Rightarrow> \<lparr>Type = r, Key = '''', Tenant = ''''\<rparr>
         | AMap r \<Rightarrow>
             (let resource = \<lparr>Type = '''', Key = '''', Tenant = ''''\<rparr>;
                  resource = (case stringField r ''type'' of
                                Some t \<Rightarrow> resource\<lparr>Type := t\<rparr> | None \<Rightarrow> resource);
                  resource = (case stringField r ''key'' of
                                Some k \<Rightarrow> resource\<lparr>Resource.Key := k\<rparr> | None \<Rightarrow> resource);
                  resource = (case stringField r ''tenant'' of
                                Some t \<Rightarrow> resource\<lparr>Resource.Tenant := t\<rparr> | None \<Rightarrow> resource)
              in resource)
         | _ \<Rightarrow> \<lparr>Type = '''', Key = '''', Tenant = ''''\<rparr>)
      in if CheckRequest.Tenant check \<noteq> ''''
         then resource\<lparr>Resource.Tenant := CheckRequest.Tenant check\<rparr>
         else resource)"

definition zeroResult :: BulkCheckResult where
  "zeroResult =
     \<lparr>Request = \<lparr>User = ANil, Action = '''', Resource = ANil, Tenant = ''''\<rparr>,
      Response = \<lparr>Allowed = False, Reason = '''', Debug = None\<rparr>\<rparr>"

text \<open>
  The loop of \<^verbatim>\<open>BulkCheck\<close> at index \<^verbatim>\<open>i\<close>, with the checks still to run. Item
  \<^verbatim>\<open>i\<close> meets the remote service as \<^verbatim>\<open>net i\<close> describes it. The assertion
  \<^verbatim>\<open>check.User.(string)\<close> panics unless the dynamic type is \<^verbatim>\<open>string\<close>.
  \<^verbatim>\<open>BulkCheck\<close> starts the loop at index 0 with as many result slots as checks, so
  the index of \<^verbatim>\<open>results[i]\<close> is always in range.
\<close>

fun BulkCheck_loop ::
  "(nat \<Rightarrow> remote) \<Rightarrow> nat \<Rightarrow> CheckRequest list \<Rightarrow> Client \<Rightarrow> BulkCheckResult list
     \<Rightarrow> api_call list \<Rightarrow> (panic + BulkCheckResult list) \<times> Client \<times> api_call list" where
  "BulkCheck_loop net i [] c results calls = (Inr results, c, calls)"
| "BulkCheck_loop net i (check # rest) c results calls =
     (case CheckRequest.User check of
        AString key \<Rightarrow>
          (case CheckWithDetails (net i) c \<lparr>User.Key = key\<rparr> (Action check) (resourceOf check) of
             (Inl err, c', calls') \<Rightarrow>
               BulkCheck_loop net (Suc i) rest c'
                 (results[i := \<lparr>Request = check,
                                Response = \<lparr>Allowed = False, Reason = Error err, Debug = None\<rparr>\<rparr>])
                 (calls @ calls')
           | (Inr response, c', calls') \<Rightarrow>
               BulkCheck_loop net (Suc i) rest c'
                 (results[i := \<lparr>Request = check, Response = response\<rparr>])
                 (calls @ calls'))
      | _ \<Rightarrow> (Inl InterfaceConversion, c, calls))"

text \<open>
  \<^verbatim>\<open>BulkCheck\<close>: a panic, or the results with the error value returned beside them
  (always \<^verbatim>\<open>nil\<close>).
\<close>

definition BulkCheck ::
  "(nat \<Rightarrow> remote) \<Rightarrow> Client \<Rightarrow> CheckRequest list
     \<Rightarrow> (panic + BulkCheckResult list \<times> error option) \<times> Client \<times> api_call list" where
  "BulkCheck net c checks =
     (case BulkCheck_loop net 0 checks c (replicate (length checks) zeroResult) [] of
        (Inl p, c', calls) \<Rightarrow> (Inl p, c', calls)
      | (Inr results, c', calls) \<Rightarrow> (Inr (results, None), c', calls))"

section \<open>Transport with retry\<close>

text \<open>
  What one HTTP exchange of \<^verbatim>\<open>doRequest\<close> meets, in the order of its steps: the body
  cannot be marshalled, the request cannot be built, the HTTP client fails (a
  network-level error), the response body cannot be read, or a response arrives with
  its status code and body.
\<close>

datatype http_outcome =
    MarshalFailed error
  | CreateFailed error
  | SendFailed error
  | ReadFailed error
  | Received int string

text \<open>
  What lies outside one call of \<^verbatim>\<open>Request\<close>: the outcome of the exchange of each
  attempt; for the backoff wait before an attempt, whether the \<^verbatim>\<open>select\<close> takes
  \<^verbatim>\<open>ctx.Done()\<close>, and then the value of \<^verbatim>\<open>ctx.Err()\<close>; the JSON decoder applied to
  an error body (message, error and code fields) and to a result body; and
  \<^verbatim>\<open>http.StatusText\<close>.
\<close>

record transport =
  outcome :: "int \<Rightarrow> http_outcome"
  ctxDone :: "int \<Rightarrow> error option"
  decodeErrResp :: "string \<Rightarrow> (string \<times> string \<times> string) option"
  unmarshalResult :: "string \<Rightarrow> error option"
  StatusText :: "int \<Rightarrow> string"

definition parseError :: "transport \<Rightarrow> int \<Rightarrow> string \<Rightarrow> error" where
  "parseError t statusCode body =
     (case decodeErrResp t body of
        None \<Rightarrow> PermisErr \<lparr>Message = body, Code = '''', StatusCode = statusCode\<rparr>
      | Some (msg, err, code) \<Rightarrow>
          (let message = msg;
               message = (if message = '''' then err else message);
               message = (if message = '''' then StatusText t statusCode else message)
           in PermisErr \<lparr>Message = message, Code = code, StatusCode = statusCode\<rparr>))"

text \<open>\<^verbatim>\<open>doRequest\<close>; \<^verbatim>\<open>hasResult\<close> says that the result target is not nil.\<close>

definition doRequest :: "transport \<Rightarrow> bool \<Rightarrow> http_outcome \<Rightarrow> error option" where
  "doRequest t hasResult exchange =
     (case exchange of
        MarshalFailed err \<Rightarrow> Some (OtherError (''failed to marshal request body: '' @ Error err))
      | CreateFailed err \<Rightarrow> Some (OtherError (''failed to create request: '' @ Error err))
      | SendFailed err \<Rightarrow> Some (OtherError (''request failed: '' @ Error err))
      | ReadFailed err \<Rightarrow> Some (OtherError (''failed to read response body: '' @ Error err))
      | Received statusCode respBody \<Rightarrow>
          (if statusCode \<ge> 400 then Some (parseError t statusCode respBody)
           else if hasResult \<and> length respBody > 0
           then (case unmarshalResult t respBody of
                   Some err \<Rightarrow> Some (OtherError (''failed to unmarshal response: '' @ Error err))
                 | None \<Rightarrow> None)
           else None))"

text \<open>
  The test that ends the retries: the error is a \<^verbatim>\<open>*PermisError\<close> with a status in
  \<^verbatim>\<open>[400,500)\<close>.
\<close>

fun clientError :: "error \<Rightarrow> bool" where
  "clientError (PermisErr apiErr) \<longleftrightarrow> StatusCode apiErr \<ge> 400 \<and> StatusCode apiErr < 500"
| "clientError (OtherError s) \<longleftrightarrow> False"

text \<open>
  \<^verbatim>\<open>time.Duration(attempt*attempt) * 100 * time.Millisecond\<close>, in nanoseconds: a
  product of 64-bit integers, which wraps.
\<close>

definition backoff :: "int \<Rightarrow> int" where
  "backoff attempt = sint (word_of_int (attempt * attempt) * 100 * 1000000 :: 64 word)"

definition millisecond :: int where
  "millisecond = 1000000"

text \<open>
  What a call does, in order: an exchange with the server, a backoff wait that ran its
  full time, or a backoff wait cut short by the context.
\<close>

datatype event = Attempt int | Sleep int | Cancelled int

text \<open>
  The loop of \<^verbatim>\<open>Request\<close> at \<^verbatim>\<open>attempt\<close>, with \<^verbatim>\<open>lastErr\<close> and the events so far. The counter is kept as an unbounded integer: it agrees with the Go \<^verbatim>\<open>int\<close> for
  every \<^verbatim>\<open>RetryAttempts\<close> below the largest \<^verbatim>\<open>int\<close>.
\<close>

function requestLoop ::
  "transport \<Rightarrow> Config \<Rightarrow> bool \<Rightarrow> int \<Rightarrow> error option \<Rightarrow> event list
     \<Rightarrow> error option \<times> event list" where
  "requestLoop t cfg hasResult attempt lastErr trace =
     (if attempt \<le> RetryAttempts cfg then
        (case (if attempt > 0 then ctxDone t attempt else None) of
           Some ctxErr \<Rightarrow> (Some ctxErr, trace @ [Cancelled (backoff attempt)])
         | None \<Rightarrow>
             (let trace' = trace @ (if attempt > 0 then [Sleep (backoff attempt)] else [])
                            @ [Attempt attempt]
              in case doRequest t hasResult (outcome t attempt) of
                   None \<Rightarrow> (None, trace')
                 | Some err \<Rightarrow>
                     (if clientError err then (Some err, trace')
                      else requestLoop t cfg hasResult (attempt + 1) (Some err) trace')))
      else (lastErr, trace))"
  by pat_completeness auto
termination
  by (relation "measure (\<lambda>(t, cfg, hasResult, attempt, lastErr, trace).
                  nat (RetryAttempts cfg + 1 - attempt))") auto

declare requestLoop.simps [simp del]

definition BaseClient_Request :: "transport \<Rightarrow> Config \<Rightarrow> bool \<Rightarrow> error option \<times> event list" where
  "BaseClient_Request t cfg hasResult = requestLoop t cfg hasResult 0 None []"

text \<open>The exchanges a call made, in order.\<close>

fun attempts :: "event list \<Rightarrow> int list" where
  "attempts [] = []"
| "attempts (Attempt i # es) = i # attempts es"
| "attempts (e # es) = attempts es"

section \<open>Notions of the specification\<close>

text \<open>
  A role matches, in the words of the specification: its expanded permission set
  contains the exact required string, the type-wildcard form or the universal wildcard.
\<close>

definition expanded :: "rolesMap \<Rightarrow> string \<Rightarrow> string set" where
  "expanded rolesMap roleKey = set (fst (getRolePermissions roleKey rolesMap {}))"

definition roleMatches :: "rolesMap \<Rightarrow> string \<Rightarrow> string \<Rightarrow> string \<Rightarrow> bool" where
  "roleMatches rolesMap resourceType action roleKey \<longleftrightarrow>
     resourceType @ '':'' @ action \<in> expanded rolesMap roleKey
     \<or> resourceType @ '':*'' \<in> expanded rolesMap roleKey
     \<or> ''*:*'' \<in> expanded rolesMap roleKey"

text \<open>
  The batch result in the words of the specification, for checks whose user is a
  string: the items are evaluated one after the other on the client as the items before
  left it, each decision is paired with its request, and an error of one item becomes
  the decision \<^verbatim>\<open>allowed:false\<close> with the error text as reason.
\<close>

fun userKeyOf :: "CheckRequest \<Rightarrow> string" where
  "userKeyOf check = (case CheckRequest.User check of AString key \<Rightarrow> key | _ \<Rightarrow> '''')"

definition decisionOf :: "error + CheckResponse \<Rightarrow> CheckResponse" where
  "decisionOf r =
     (case r of
        Inl err \<Rightarrow> \<lparr>Allowed = False, Reason = Error err, Debug = None\<rparr>
      | Inr response \<Rightarrow> response)"

fun itemResults :: "(nat \<Rightarrow> remote) \<Rightarrow> nat \<Rightarrow> CheckRequest list \<Rightarrow> Client \<Rightarrow> BulkCheckResult list" where
  "itemResults net i [] c = []"
| "itemResults net i (check # rest) c =
     (let run = CheckWithDetails (net i) c \<lparr>User.Key = userKeyOf check\<rparr> (Action check)
                  (resourceOf check)
      in \<lparr>Request = check, Response = decisionOf (fst run)\<rparr>
           # itemResults net (Suc i) rest (fst (snd run)))"

section \<open>Sample data\<close>

text \<open>
  Two catalogs used to run the definitions: one whose \<^verbatim>\<open>extends\<close> graph has the
  cycle \<^verbatim>\<open>a\<close>, \<^verbatim>\<open>b\<close>, \<^verbatim>\<open>a\<close> and a dangling parent; and the
  editor/viewer catalog.
\<close>

definition roleA :: RoleRead where
  "roleA = \<lparr>RoleRead.Key = ''a'', Permissions = [''x:read''], Extends = [''b'']\<rparr>"

definition roleB :: RoleRead where
  "roleB = \<lparr>RoleRead.Key = ''b'', Permissions = [''x:read'', ''y:write''],
            Extends = [''a'', ''ghost'']\<rparr>"

definition cyclicCatalog :: rolesMap where
  "cyclicCatalog = rolesMapOf [roleA, roleB]"

text \<open>
  A catalog in which \<^verbatim>\<open>top\<close> extends \<^verbatim>\<open>left\<close> and \<^verbatim>\<open>right\<close>, and both extend
  \<^verbatim>\<open>base\<close>.
\<close>

definition roleTop :: RoleRead where
  "roleTop = \<lparr>RoleRead.Key = ''top'', Permissions = [''top:act''], Extends = [''left'', ''right'']\<rparr>"

definition roleLeft :: RoleRead where
  "roleLeft = \<lparr>RoleRead.Key = ''left'', Permissions = [''left:act''], Extends = [''base'']\<rparr>"

definition roleRight :: RoleRead where
  "roleRight = \<lparr>RoleRead.Key = ''right'', Permissions = [''right:act''], Extends = [''base'']\<rparr>"

definition roleBase :: RoleRead where
  "roleBase = \<lparr>RoleRead.Key = ''base'', Permissions = [''base:act''], Extends = []\<rparr>"

definition diamondCatalog :: rolesMap where
  "diamondCatalog = rolesMapOf [roleTop, roleLeft, roleRight, roleBase]"

definition viewer :: RoleRead where
  "viewer = \<lparr>RoleRead.Key = ''viewer'', Permissions = [''doc:read''], Extends = []\<rparr>"

definition editor :: RoleRead where
  "editor = \<lparr>RoleRead.Key = ''editor'', Permissions = [''doc:write''], Extends = [''viewer'']\<rparr>"

text \<open>
  Clients with and without a configured scope, and a remote service that answers the
  scope fetch with the scope \<^verbatim>\<open>(p2, e2)\<close> and the two list calls with the given
  results.
\<close>

definition clientScoped :: Client where
  "clientScoped =
     \<lparr>config = \<lparr>Config.ProjectID = ''p1'', Config.EnvironmentID = ''e1'',
                 RetryAttempts = 3, ThrowOnError = False\<rparr>,
      scopeInitialized = False\<rparr>"

definition clientStrict :: Client where
  "clientStrict =
     \<lparr>config = \<lparr>Config.ProjectID = ''p1'', Config.EnvironmentID = ''e1'',
                 RetryAttempts = 3, ThrowOnError = True\<rparr>,
      scopeInitialized = False\<rparr>"

definition clientNoScope :: Client where
  "clientNoScope =
     \<lparr>config = \<lparr>Config.ProjectID = '''', Config.EnvironmentID = '''',
                 RetryAttempts = 3, ThrowOnError = False\<rparr>,
      scopeInitialized = False\<rparr>"

definition scopeAnswer :: "string \<Rightarrow> string \<Rightarrow> scope_fetch" where
  "scopeAnswer p e = Responded 200 '''' (Inr \<lparr>APIKeyScope.ProjectID = p, APIKeyScope.EnvironmentID = e\<rparr>)"

definition sampleRemote ::
  "(error + RoleAssignmentRead list) \<Rightarrow> (error + RoleList) \<Rightarrow> remote" where
  "sampleRemote assignmentsResult rolesResult =
     \<lparr>scopeFetch = scopeAnswer ''p2'' ''e2'',
      RoleAssignments_List = (\<lambda>params. assignmentsResult),
      Roles_List = (\<lambda>params. rolesResult),
      rangeOrder = (\<lambda>roleKey. 0)\<rparr>"

definition assigned :: "string \<Rightarrow> RoleAssignmentRead" where
  "assigned roleKey =
     \<lparr>RoleAssignmentRead.User = ''u1'', Role = roleKey, RoleAssignmentRead.Tenant = ''''\<rparr>"

definition unavailable :: error where
  "unavailable = PermisErr \<lparr>Message = ''Service Unavailable'', Code = '''', StatusCode = 503\<rparr>"

definition u1 :: User where
  "u1 = \<lparr>User.Key = ''u1''\<rparr>"

definition doc :: Resource where
  "doc = \<lparr>Type = ''doc'', Resource.Key = '''', Resource.Tenant = ''''\<rparr>"

text \<open>Roles that carry wildcards, and a role whose type name contains a colon.\<close>

definition admin :: RoleRead where
  "admin = \<lparr>RoleRead.Key = ''admin'', Permissions = [''*:*''], Extends = []\<rparr>"

definition docAdmin :: RoleRead where
  "docAdmin = \<lparr>RoleRead.Key = ''docAdmin'', Permissions = [''doc:*''], Extends = []\<rparr>"

definition superuser :: RoleRead where
  "superuser = \<lparr>RoleRead.Key = ''superuser'', Permissions = [''doc:read'', ''doc:*'', ''*:*''],
                Extends = []\<rparr>"

definition odd :: RoleRead where
  "odd = \<lparr>RoleRead.Key = ''odd'', Permissions = [''a:b:*''], Extends = []\<rparr>"

definition fileResource :: Resource where
  "fileResource = \<lparr>Type = ''file'', Resource.Key = '''', Resource.Tenant = ''''\<rparr>"

definition remoteOf :: "string list \<Rightarrow> RoleRead list \<Rightarrow> remote" where
  "remoteOf roleKeys roles = sampleRemote (Inr (map assigned roleKeys)) (Inr \<lparr>Data = roles\<rparr>)"

text \<open>
  A transport whose exchanges and cancellations are given, with a JSON decoder that
  rejects every error body and accepts every result body; a server that answers 500
  twice and then 200; a server that always answers 500; a server that answers 404.
\<close>

definition sampleTransport :: "(int \<Rightarrow> http_outcome) \<Rightarrow> (int \<Rightarrow> error option) \<Rightarrow> transport" where
  "sampleTransport exchanges cancelled =
     \<lparr>outcome = exchanges, ctxDone = cancelled, decodeErrResp = (\<lambda>body. None),
      unmarshalResult = (\<lambda>body. None), StatusText = (\<lambda>status. '''')\<rparr>"

definition defaultConfig :: Config where
  "defaultConfig =
     \<lparr>Config.ProjectID = ''p1'', Config.EnvironmentID = ''e1'',
      RetryAttempts = DefaultRetryAttempts, ThrowOnError = False\<rparr>"

definition twoFailures :: "int \<Rightarrow> http_outcome" where
  "twoFailures attempt = (if attempt < 2 then Received 500 ''down'' else Received 200 ''{}'')"

definition alwaysDown :: "int \<Rightarrow> http_outcome" where
  "alwaysDown attempt = Received 500 ''down''"

definition notFound :: "int \<Rightarrow> http_outcome" where
  "notFound attempt = Received 404 ''missing''"

definition neverCancelled :: "int \<Rightarrow> error option" where
  "neverCancelled attempt = None"

definition canceled :: error where
  "canceled = OtherError ''context canceled''"

definition cancelledAt :: "int \<Rightarrow> int \<Rightarrow> error option" where
  "cancelledAt k attempt = (if attempt = k then Some canceled else None)"

text \<open>
  Check requests that read a document: the user given as a string, as a JSON object
  with the key inside, or as a value of another dynamic type such as an integer.
\<close>

definition readDoc :: "any \<Rightarrow> CheckRequest" where
  "readDoc user =
     \<lparr>CheckRequest.User = user, Action = ''read'', CheckRequest.Resource = AString ''doc'',
      CheckRequest.Tenant = ''''\<rparr>"

definition userObject :: any where
  "userObject = AMap (fmupd ''key'' (AString ''u1'') fmempty)"

section \<open>Permission expansion: results\<close>

lemma removeDuplicates_filter:
  "removeDuplicates xs seen unique = unique @ filter (\<lambda>y. y \<notin> seen) (first_seen xs)"
proof (induction xs arbitrary: seen unique)
  case Nil
  show ?case by simp
next
  case (Cons x xs)
  show ?case
  proof (cases "x \<in> seen")
    case True
    then have "filter (\<lambda>y. y \<notin> seen) (removeAll x (first_seen xs))
                 = filter (\<lambda>y. y \<notin> seen) (first_seen xs)"
      by (simp add: removeAll_filter_not_eq) (rule filter_cong, auto)
    with True Cons show ?thesis by simp
  next
    case False
    have "filter (\<lambda>y. y \<notin> insert x seen) (first_seen xs)
            = filter (\<lambda>y. y \<notin> seen) (removeAll x (first_seen xs))"
      by (simp add: removeAll_filter_not_eq) (rule filter_cong, auto)
    with False Cons show ?thesis by simp
  qed
qed

lemma removeDuplicates_first_seen: "removeDuplicates xs {} [] = first_seen xs"
  by (simp add: removeDuplicates_filter)

lemma set_first_seen: "set (first_seen xs) = set xs"
  by (induction xs) auto

lemma distinct_first_seen: "distinct (first_seen xs)"
  by (induction xs) (auto simp: distinct_removeAll)

text \<open>
  Reaching a key past a set of marks: both ends of a path are unmarked, fewer marks
  reach more, and an edge can be put in front of a path.
\<close>

lemma reachable_unmarked:
  "reachable rolesMap visited roleKey k \<Longrightarrow> roleKey \<notin> visited \<and> k \<notin> visited"
  by (induction rule: reachable.induct) auto

lemma reachable_mono:
  "reachable rolesMap visited' roleKey k \<Longrightarrow> visited \<subseteq> visited' \<Longrightarrow>
     reachable rolesMap visited roleKey k"
  by (induction rule: reachable.induct) (auto intro: reachable.intros)

lemma reachable_prepend:
  assumes "reachable rolesMap visited p k"
    and "roleKey \<notin> visited" and "fmlookup rolesMap roleKey = Some role" and "p \<in> set (Extends role)"
  shows "reachable rolesMap visited roleKey k"
  using assms
proof (induction rule: reachable.induct)
  case start
  then show ?case by (meson reachable.intros)
next
  case (step k role' parent)
  then show ?case by (meson reachable.step)
qed

text \<open>
  What is reached from a key: nothing when it is marked, itself alone when it is
  absent from the catalog, and otherwise itself and what its parents reach once it is
  marked. What a later parent adds to an earlier one does not depend on whether the
  keys the earlier one reached are marked.
\<close>

lemma reached_marked: "roleKey \<in> visited \<Longrightarrow> reached rolesMap visited roleKey = {}"
  using reachable_unmarked by (fastforce simp: reached_def)

lemma reached_absent:
  assumes "roleKey \<notin> visited" and "fmlookup rolesMap roleKey = None"
  shows "reached rolesMap visited roleKey = {roleKey}"
proof -
  have "k = roleKey" if "reachable rolesMap visited roleKey k" for k
    using that assms(2) by (induction rule: reachable.induct) auto
  with assms(1) show ?thesis
    by (auto simp: reached_def intro: reachable.start)
qed

lemma reached_entered:
  assumes "roleKey \<notin> visited" and "fmlookup rolesMap roleKey = Some role"
  shows "reached rolesMap visited roleKey =
           insert roleKey (\<Union>p \<in> set (Extends role). reached rolesMap (insert roleKey visited) p)"
proof (intro set_eqI iffI)
  fix k assume "k \<in> reached rolesMap visited roleKey"
  then have "reachable rolesMap visited roleKey k" by (simp add: reached_def)
  then have "k = roleKey \<or> (\<exists>p \<in> set (Extends role). reachable rolesMap (insert roleKey visited) p k)"
  proof (induction rule: reachable.induct)
    case start
    show ?case by simp
  next
    case (step k role' parent)
    show ?case
    proof (cases "parent = roleKey")
      case True
      then show ?thesis by simp
    next
      case False
      with step.hyps have fresh: "parent \<notin> insert roleKey visited" by simp
      from step.IH show ?thesis
      proof
        assume "k = roleKey"
        with step.hyps assms(2) have "parent \<in> set (Extends role)" by simp
        with fresh show ?thesis by (meson reachable.start)
      next
        assume "\<exists>p \<in> set (Extends role). reachable rolesMap (insert roleKey visited) p k"
        with step.hyps fresh show ?thesis by (meson reachable.step)
      qed
    qed
  qed
  then show "k \<in> insert roleKey (\<Union>p \<in> set (Extends role). reached rolesMap (insert roleKey visited) p)"
    by (auto simp: reached_def)
next
  fix k assume "k \<in> insert roleKey (\<Union>p \<in> set (Extends role). reached rolesMap (insert roleKey visited) p)"
  then consider "k = roleKey"
    | p where "p \<in> set (Extends role)" "reachable rolesMap (insert roleKey visited) p k"
    by (auto simp: reached_def)
  then show "k \<in> reached rolesMap visited roleKey"
  proof cases
    case 1
    with assms(1) show ?thesis by (simp add: reached_def reachable.start)
  next
    case 2
    from 2(2) have "reachable rolesMap visited p k"
      by (rule reachable_mono) auto
    then show ?thesis
      using assms 2(1) by (simp add: reached_def reachable_prepend)
  qed
qed

lemma reached_after:
  "reached rolesMap visited p \<union> reached rolesMap (visited \<union> reached rolesMap visited p) q
     = reached rolesMap visited p \<union> reached rolesMap visited q"
proof (intro set_eqI iffI)
  fix k assume "k \<in> reached rolesMap visited p \<union> reached rolesMap (visited \<union> reached rolesMap visited p) q"
  then show "k \<in> reached rolesMap visited p \<union> reached rolesMap visited q"
    using reachable_mono [of rolesMap "visited \<union> reached rolesMap visited p" q k visited]
    by (auto simp: reached_def)
next
  fix k assume "k \<in> reached rolesMap visited p \<union> reached rolesMap visited q"
  moreover have "k \<in> reached rolesMap visited p
      \<or> reachable rolesMap (visited \<union> reached rolesMap visited p) q k"
    if "reachable rolesMap visited q k"
    using that
  proof (induction rule: reachable.induct)
    case start
    then show ?case by (meson UnE reachable.start)
  next
    case (step k role parent)
    from step.IH show ?case
    proof
      assume "k \<in> reached rolesMap visited p"
      with step.hyps show ?thesis by (auto simp: reached_def intro: reachable.step)
    next
      assume "reachable rolesMap (visited \<union> reached rolesMap visited p) q k"
      with step.hyps show ?thesis
        by (cases "parent \<in> reached rolesMap visited p") (auto intro: reachable.step)
    qed
  qed
  ultimately show "k \<in> reached rolesMap visited p \<union> reached rolesMap (visited \<union> reached rolesMap visited p) q"
    by (auto simp: reached_def)
qed

text \<open>
  The traversal is correct: a call marks exactly the keys it reaches, and returns
  exactly the permissions that the catalog roles among them declare.
\<close>

lemma declaredBy_simps:
  "declaredBy rolesMap {} = {}"
  "declaredBy rolesMap (A \<union> B) = declaredBy rolesMap A \<union> declaredBy rolesMap B"
  "fmlookup rolesMap k = None \<Longrightarrow> declaredBy rolesMap (insert k A) = declaredBy rolesMap A"
  "fmlookup rolesMap k = Some role \<Longrightarrow>
     declaredBy rolesMap (insert k A) = set (Permissions role) \<union> declaredBy rolesMap A"
  by (auto simp: declaredBy_def)

lemma reached_after_all:
  "reached rolesMap visited p
     \<union> (\<Union>q \<in> S. reached rolesMap (visited \<union> reached rolesMap visited p) q)
   = reached rolesMap visited p \<union> (\<Union>q \<in> S. reached rolesMap visited q)"
  using reached_after [of rolesMap visited p] by blast

lemma traversal:
  "snd (getRolePermissions roleKey rolesMap visited) = visited \<union> reached rolesMap visited roleKey
   \<and> set (fst (getRolePermissions roleKey rolesMap visited))
       = declaredBy rolesMap (reached rolesMap visited roleKey)"
  "snd (extendsLoop parents rolesMap permissions visited)
     = visited \<union> (\<Union>p \<in> set parents. reached rolesMap visited p)
   \<and> set (fst (extendsLoop parents rolesMap permissions visited))
       = set permissions \<union> declaredBy rolesMap (\<Union>p \<in> set parents. reached rolesMap visited p)"
proof (induction roleKey rolesMap visited and parents rolesMap permissions visited
       rule: getRolePermissions_extendsLoop.induct)
  case (1 roleKey rolesMap visited)
  show ?case
  proof (cases "roleKey \<in> visited")
    case True
    then show ?thesis
      by (simp add: getRolePermissions.simps reached_marked declaredBy_simps)
  next
    case False
    show ?thesis
    proof (cases "fmlookup rolesMap roleKey")
      case None
      with False show ?thesis
        by (simp add: getRolePermissions.simps reached_absent declaredBy_simps)
    next
      case (Some role)
      obtain perms v' where loop:
        "extendsLoop (Extends role) rolesMap (Permissions role) (insert roleKey visited) = (perms, v')"
        by (cases "extendsLoop (Extends role) rolesMap (Permissions role) (insert roleKey visited)")
      let ?below = "\<Union>p \<in> set (Extends role). reached rolesMap (insert roleKey visited) p"
      from 1 [OF False Some] loop
      have v': "v' = insert roleKey visited \<union> ?below"
        and perms: "set perms = set (Permissions role) \<union> declaredBy rolesMap ?below"
        by simp_all
      have r: "reached rolesMap visited roleKey = insert roleKey ?below"
        using False Some by (rule reached_entered)
      have "snd (getRolePermissions roleKey rolesMap visited) = v'"
        and "set (fst (getRolePermissions roleKey rolesMap visited)) = set perms"
        using False Some loop
        by (simp_all add: getRolePermissions.simps removeDuplicates_first_seen set_first_seen)
      then show ?thesis
        unfolding r v' perms using Some by (simp add: declaredBy_simps)
    qed
  qed
next
  case (2 rolesMap permissions visited)
  show ?case by (simp add: declaredBy_simps)
next
  case (3 parentRoleKey rest rolesMap permissions visited)
  obtain pp v' where call: "getRolePermissions parentRoleKey rolesMap visited = (pp, v')"
    by (cases "getRolePermissions parentRoleKey rolesMap visited")
  let ?first = "reached rolesMap visited parentRoleKey"
  from 3(1) call have v': "v' = visited \<union> ?first" and pp: "set pp = declaredBy rolesMap ?first"
    by simp_all
  let ?later = "\<Union>q \<in> set rest. reached rolesMap v' q"
  from 3(2) [of pp v'] call
  have marks: "snd (extendsLoop rest rolesMap (permissions @ pp) v') = v' \<union> ?later"
    and got: "set (fst (extendsLoop rest rolesMap (permissions @ pp) v'))
                = set (permissions @ pp) \<union> declaredBy rolesMap ?later"
    by simp_all
  have together: "?first \<union> ?later = (\<Union>p \<in> set (parentRoleKey # rest). reached rolesMap visited p)"
    unfolding v' using reached_after_all [of rolesMap visited parentRoleKey "set rest"] by simp
  have "snd (extendsLoop (parentRoleKey # rest) rolesMap permissions visited)
          = visited \<union> (?first \<union> ?later)"
    using call marks v' by auto
  moreover have "set (fst (extendsLoop (parentRoleKey # rest) rolesMap permissions visited))
          = set permissions \<union> declaredBy rolesMap (?first \<union> ?later)"
    using call got pp by (auto simp: declaredBy_simps)
  ultimately show ?case unfolding together by blast
qed

lemma extendsLoop_concat:
  "fst (extendsLoop ps rolesMap permissions visited) =
     permissions @ concat (parentExpansions ps rolesMap visited)"
  by (induction ps arbitrary: permissions visited) (simp_all add: case_prod_beta traversal)

text \<open>
  C1. \<^verbatim>\<open>getRolePermissions\<close> is a total function on every finite catalog, every role
  key and every \<^verbatim>\<open>visited\<close> set (its termination is proved above, cycles in
  \<^verbatim>\<open>extends\<close> included), and its result has no repeated string. A role key that is
  already marked in \<^verbatim>\<open>visited\<close>, that is a role reached a second time within one
  top-level expansion, contributes nothing and leaves the marks as they are. A role key
  absent from the catalog contributes no permissions. For a key of the catalog that is
  not yet marked, the result is the first-seen de-duplication of the role's own declared
  permissions followed by the expansions of its \<^verbatim>\<open>extends\<close> parents in declaration
  order, where each parent is expanded past the marks of the role itself and of
  everything the parents before it reached. The call marks exactly the keys it reaches
  through \<^verbatim>\<open>extends\<close> past the marks it was given, so a parent that was not reached
  before always contributes its expansion; and the strings returned are exactly the
  permissions declared by the catalog roles reached. The top-level call is the one with
  the empty \<^verbatim>\<open>visited\<close> set, where every key on a path of \<^verbatim>\<open>extends\<close> edges from
  the role is reached.
\<close>

theorem getRolePermissions_expansion:
  "distinct (fst (getRolePermissions roleKey rolesMap visited))
   \<and> (roleKey \<in> visited \<longrightarrow> getRolePermissions roleKey rolesMap visited = ([], visited))
   \<and> (fmlookup rolesMap roleKey = None \<longrightarrow> fst (getRolePermissions roleKey rolesMap visited) = [])
   \<and> (\<forall>role. roleKey \<notin> visited \<and> fmlookup rolesMap roleKey = Some role \<longrightarrow>
         fst (getRolePermissions roleKey rolesMap visited) =
           first_seen (Permissions role
             @ concat (parentExpansions (Extends role) rolesMap (insert roleKey visited))))
   \<and> snd (getRolePermissions roleKey rolesMap visited) = visited \<union> reached rolesMap visited roleKey
   \<and> set (fst (getRolePermissions roleKey rolesMap visited))
       = declaredBy rolesMap (reached rolesMap visited roleKey)"
proof (intro conjI allI impI)
  show "distinct (fst (getRolePermissions roleKey rolesMap visited))"
    by (simp add: getRolePermissions.simps removeDuplicates_first_seen distinct_first_seen
             case_prod_beta split: option.splits)
next
  assume "roleKey \<in> visited"
  then show "getRolePermissions roleKey rolesMap visited = ([], visited)"
    by (simp add: getRolePermissions.simps)
next
  assume "fmlookup rolesMap roleKey = None"
  then show "fst (getRolePermissions roleKey rolesMap visited) = []"
    by (simp add: getRolePermissions.simps)
next
  fix role
  assume "roleKey \<notin> visited \<and> fmlookup rolesMap roleKey = Some role"
  then show "fst (getRolePermissions roleKey rolesMap visited) =
           first_seen (Permissions role
             @ concat (parentExpansions (Extends role) rolesMap (insert roleKey visited)))"
    using extendsLoop_concat [of "Extends role" rolesMap "Permissions role" "insert roleKey visited"]
    by (simp add: getRolePermissions.simps removeDuplicates_first_seen case_prod_beta)
next
  show "snd (getRolePermissions roleKey rolesMap visited) = visited \<union> reached rolesMap visited roleKey"
    by (simp add: traversal)
next
  show "set (fst (getRolePermissions roleKey rolesMap visited))
       = declaredBy rolesMap (reached rolesMap visited roleKey)"
    by (simp add: traversal)
qed

text \<open>
  The definitions run on the two sample catalogs.
\<close>

lemma eval_diamond:
  "getRolePermissions ''top'' diamondCatalog {}
     = ([''top:act'', ''left:act'', ''base:act'', ''right:act''],
        {''right'', ''base'', ''left'', ''top''})"
  by (simp add: diamondCatalog_def rolesMapOf_def roleTop_def roleLeft_def roleRight_def
        roleBase_def getRolePermissions.simps)

lemma eval_diamond_right:
  "getRolePermissions ''right'' diamondCatalog {''top'', ''left'', ''base''}
     = ([''right:act''], {''right'', ''top'', ''left'', ''base''})"
  by (simp add: diamondCatalog_def rolesMapOf_def roleTop_def roleLeft_def roleRight_def
        roleBase_def getRolePermissions.simps)

lemma eval_cyclic:
  "getRolePermissions ''a'' cyclicCatalog {}
     = ([''x:read'', ''y:write''], {''ghost'', ''b'', ''a''})"
  by (simp add: cyclicCatalog_def rolesMapOf_def roleA_def roleB_def getRolePermissions.simps)

text \<open>
  The theorem at the diamond catalog: \<^verbatim>\<open>top\<close> contributes its own permission, then
  the expansion of \<^verbatim>\<open>left\<close> with \<^verbatim>\<open>base\<close>, then the expansion of \<^verbatim>\<open>right\<close>, where
  \<^verbatim>\<open>base\<close> is reached a second time and adds nothing. At the cyclic catalog, expanding
  \<^verbatim>\<open>a\<close> enters \<^verbatim>\<open>b\<close>, meets \<^verbatim>\<open>a\<close> again and the dangling \<^verbatim>\<open>ghost\<close>, and
  returns.
\<close>

theorem getRolePermissions_expansion_witness:
  "''top'' \<notin> ({} :: string set)
   \<and> fmlookup diamondCatalog ''top'' = Some roleTop
   \<and> fst (getRolePermissions ''top'' diamondCatalog {})
       = [''top:act'', ''left:act'', ''base:act'', ''right:act'']
   \<and> reached diamondCatalog {} ''top'' = {''right'', ''base'', ''left'', ''top''}
   \<and> declaredBy diamondCatalog (reached diamondCatalog {} ''top'')
       = set [''top:act'', ''left:act'', ''base:act'', ''right:act'']
   \<and> parentExpansions [''left'', ''right''] diamondCatalog {''top''}
       = [[''left:act'', ''base:act''], [''right:act'']]
   \<and> fst (getRolePermissions ''a'' cyclicCatalog {}) = [''x:read'', ''y:write'']
   \<and> reached cyclicCatalog {} ''a'' = {''ghost'', ''b'', ''a''}
   \<and> ''a'' \<in> {''a'', ''b''}
   \<and> getRolePermissions ''a'' cyclicCatalog {''a'', ''b''} = ([], {''a'', ''b''})
   \<and> fmlookup cyclicCatalog ''ghost'' = None
   \<and> fst (getRolePermissions ''ghost'' cyclicCatalog {}) = []"
proof -
  have marks: "snd (getRolePermissions k m v) = v \<union> reached m v k"
    and perms: "set (fst (getRolePermissions k m v)) = declaredBy m (reached m v k)"
    and again: "k \<in> v \<Longrightarrow> getRolePermissions k m v = ([], v)"
    and absent: "fmlookup m k = None \<Longrightarrow> fst (getRolePermissions k m v) = []" for k m v
    using getRolePermissions_expansion [of k m v] by blast+
  have look: "fmlookup diamondCatalog ''top'' = Some roleTop"
    "fmlookup cyclicCatalog ''ghost'' = None"
    by (simp_all add: diamondCatalog_def cyclicCatalog_def rolesMapOf_def roleTop_def
          roleLeft_def roleRight_def roleBase_def roleA_def roleB_def)
  have left: "getRolePermissions ''left'' diamondCatalog {''top''}
     = ([''left:act'', ''base:act''], {''base'', ''left'', ''top''})"
    by (simp add: diamondCatalog_def rolesMapOf_def roleTop_def roleLeft_def roleRight_def
        roleBase_def getRolePermissions.simps)
  have right: "getRolePermissions ''right'' diamondCatalog {''base'', ''left'', ''top''}
     = ([''right:act''], {''right'', ''base'', ''left'', ''top''})"
    by (simp add: diamondCatalog_def rolesMapOf_def roleTop_def roleLeft_def roleRight_def
        roleBase_def getRolePermissions.simps)
  have after_left: "{''top''} \<union> reached diamondCatalog {''top''} ''left'' = {''base'', ''left'', ''top''}"
    using marks [of "''left''" diamondCatalog "{''top''}"] by (simp only: left snd_conv)
  have parents: "parentExpansions [''left'', ''right''] diamondCatalog {''top''}
       = [[''left:act'', ''base:act''], [''right:act'']]"
    by (simp only: parentExpansions.simps after_left left right fst_conv)
  have top: "reached diamondCatalog {} ''top'' = {''right'', ''base'', ''left'', ''top''}"
    using marks [of "''top''" diamondCatalog "{}"] by (simp only: eval_diamond snd_conv Un_empty_left)
  have decl: "declaredBy diamondCatalog (reached diamondCatalog {} ''top'')
       = set [''top:act'', ''left:act'', ''base:act'', ''right:act'']"
    using perms [of "''top''" diamondCatalog "{}"] by (simp only: eval_diamond fst_conv)
  have cyc: "reached cyclicCatalog {} ''a'' = {''ghost'', ''b'', ''a''}"
    using marks [of "''a''" cyclicCatalog "{}"] by (simp only: eval_cyclic snd_conv Un_empty_left)
  have second: "getRolePermissions ''a'' cyclicCatalog {''a'', ''b''} = ([], {''a'', ''b''})"
    by (rule again) simp
  have ghost: "fst (getRolePermissions ''ghost'' cyclicCatalog {}) = []"
    using look(2) by (rule absent)
  have "''top'' \<notin> ({} :: string set)" "''a'' \<in> {''a'', ''b''}" by simp_all
  with look parents top decl cyc second ghost eval_diamond eval_cyclic
  show ?thesis by (simp only: fst_conv simp_thms)
qed

section \<open>Scope resolution: results\<close>

lemma ensureScope_known:
  "scopeInitialized c \<or> HasScope (config c) \<Longrightarrow> ensureScope net c = (None, c, [])"
  by (simp add: ensureScope_def)

lemma ensureScope_establishes:
  "ensureScope net c = (None, c', calls) \<Longrightarrow> scopeInitialized c' \<or> HasScope (config c')"
  by (auto simp: ensureScope_def split: if_splits prod.splits option.splits)

lemma ensureScope_calls_known:
  "scopeInitialized c \<or> HasScope (config c) \<Longrightarrow> ensureScope_calls nets c = (c, [])"
  by (induction nets) (simp_all add: ensureScope_known)

lemma fetchAndSetScope_flag:
  "fetchAndSetScope net c = (r, c', calls) \<Longrightarrow>
     ThrowOnError (config c') = ThrowOnError (config c) \<and> set calls \<subseteq> {ScopeCall}"
  by (auto simp: fetchAndSetScope_def UpdateScope_def
      split: scope_fetch.splits if_splits sum.splits)

lemma ensureScope_flag:
  "ensureScope net c = (r, c', calls) \<Longrightarrow>
     ThrowOnError (config c') = ThrowOnError (config c) \<and> set calls \<subseteq> {ScopeCall}"
  by (auto simp: ensureScope_def split: if_splits prod.splits option.splits
      dest!: fetchAndSetScope_flag)

text \<open>
  C6. If the scope is already known (\<^verbatim>\<open>scopeInitialized\<close> is set by an earlier
  successful resolution, or \<^verbatim>\<open>ProjectID\<close> and \<^verbatim>\<open>EnvironmentID\<close> are both
  configured), \<^verbatim>\<open>ensureScope\<close> returns no error, issues no network request and
  leaves the client as it is, whatever the network would answer; so does every run of
  later calls. A call that returns no error leaves the scope known, hence no later
  \<^verbatim>\<open>ensureScope\<close> call overwrites the pair it established.
\<close>

theorem ensureScope_single_assignment:
  "(scopeInitialized c \<or> HasScope (config c) \<longrightarrow>
      ensureScope net c = (None, c, []) \<and> ensureScope_calls nets c = (c, []))
   \<and> (fst (ensureScope net c) = None \<longrightarrow>
      ensureScope_calls nets (fst (snd (ensureScope net c))) = (fst (snd (ensureScope net c)), []))"
proof (intro conjI impI)
  assume known: "scopeInitialized c \<or> HasScope (config c)"
  then show "ensureScope net c = (None, c, [])" by (rule ensureScope_known)
  from known show "ensureScope_calls nets c = (c, [])" by (rule ensureScope_calls_known)
next
  assume ok: "fst (ensureScope net c) = None"
  obtain c' calls where run: "ensureScope net c = (None, c', calls)"
    using ok by (cases "ensureScope net c") auto
  then have "scopeInitialized c' \<or> HasScope (config c')" by (rule ensureScope_establishes)
  then have "ensureScope_calls nets c' = (c', [])" by (rule ensureScope_calls_known)
  with run show "ensureScope_calls nets (fst (snd (ensureScope net c))) = (fst (snd (ensureScope net c)), [])"
    by simp
qed

text \<open>
  On a configured client a fetch that would answer \<^verbatim>\<open>(p2, e2)\<close> is never made; a
  client resolved to \<^verbatim>\<open>(p1, e1)\<close> keeps that pair through later calls.
\<close>

theorem ensureScope_single_assignment_witness:
  "HasScope (config clientScoped)
   \<and> ensureScope (scopeAnswer ''p2'' ''e2'') clientScoped = (None, clientScoped, [])
   \<and> fst (ensureScope (scopeAnswer ''p1'' ''e1'') clientNoScope) = None
   \<and> fst (snd (ensureScope (scopeAnswer ''p1'' ''e1'') clientNoScope))
       = clientScoped\<lparr>scopeInitialized := True\<rparr>
   \<and> ensureScope_calls [scopeAnswer ''p2'' ''e2'', DoFailed unavailable]
        (clientScoped\<lparr>scopeInitialized := True\<rparr>)
       = (clientScoped\<lparr>scopeInitialized := True\<rparr>, [])"
proof -
  have known: "HasScope (config clientScoped)"
    by (simp add: HasScope_def clientScoped_def)
  have resolved: "ensureScope (scopeAnswer ''p1'' ''e1'') clientNoScope =
         (None, clientScoped\<lparr>scopeInitialized := True\<rparr>, [ScopeCall])"
    by (simp add: ensureScope_def fetchAndSetScope_def scopeAnswer_def clientNoScope_def
        clientScoped_def HasScope_def UpdateScope_def)
  show ?thesis
    using ensureScope_single_assignment [of clientScoped "scopeAnswer ''p2'' ''e2''" "[]"]
      ensureScope_single_assignment [of clientNoScope "scopeAnswer ''p1'' ''e1''"
        "[scopeAnswer ''p2'' ''e2'', DoFailed unavailable]"]
      known resolved
    by simp
qed

section \<open>Permission evaluation: results\<close>

lemma roleKeysOf_fold:
  "set (fold (\<lambda>assignment roleKeys.
             if Role assignment \<in> set roleKeys then roleKeys else roleKeys @ [Role assignment])
          assignments acc) = set acc \<union> Role ` set assignments"
  "distinct acc \<Longrightarrow> distinct (fold (\<lambda>assignment roleKeys.
             if Role assignment \<in> set roleKeys then roleKeys else roleKeys @ [Role assignment])
          assignments acc)"
  by (induction assignments arbitrary: acc) auto

lemma set_roleKeysOf: "set (roleKeysOf assignments) = Role ` set assignments"
  by (simp add: roleKeysOf_def roleKeysOf_fold)

lemma distinct_roleKeysOf: "distinct (roleKeysOf assignments)"
  by (simp add: roleKeysOf_def roleKeysOf_fold)

lemma set_rangeOver: "set (rangeOver rank keys) = set keys"
  by (simp add: rangeOver_def)

lemma distinct_rangeOver: "distinct (rangeOver rank keys) = distinct keys"
  by (simp add: rangeOver_def)

text \<open>
  The ranking loses no behaviour of \<^verbatim>\<open>range\<close>: every order of the keys is the walk
  of the ranking that gives each key its position in that order.
\<close>

lemma filter_single:
  "distinct xs \<Longrightarrow> k \<in> set xs \<Longrightarrow> (\<And>x. x \<in> set xs \<Longrightarrow> P x \<longleftrightarrow> x = k) \<Longrightarrow> filter P xs = [k]"
proof (induction xs)
  case Nil
  then show ?case by simp
next
  case (Cons a xs)
  show ?case
  proof (cases "a = k")
    case True
    with Cons.prems have "filter P xs = []"
      by (auto simp: filter_empty_conv)
    with True Cons.prems(3) [of a] show ?thesis by simp
  next
    case False
    with Cons show ?thesis by auto
  qed
qed

lemma position_inj:
  "x \<in> set walk \<Longrightarrow> y \<in> set walk \<Longrightarrow>
     length (takeWhile (\<lambda>z. z \<noteq> x) walk) = length (takeWhile (\<lambda>z. z \<noteq> y) walk) \<Longrightarrow> x = y"
  by (induction walk) (auto split: if_splits)

lemma sorted_map_Suc: "sorted ys \<Longrightarrow> sorted (map Suc ys)"
  by (induction ys) auto

lemma position_sorted:
  "distinct walk \<Longrightarrow> sorted (map (\<lambda>k. length (takeWhile (\<lambda>z. z \<noteq> k) walk)) walk)"
proof (induction walk)
  case Nil
  show ?case by simp
next
  case (Cons a walk)
  let ?r = "\<lambda>k. length (takeWhile (\<lambda>z. z \<noteq> k) walk)"
  let ?r' = "\<lambda>k. length (takeWhile (\<lambda>z. z \<noteq> k) (a # walk))"
  from Cons.prems have "map ?r' walk = map (\<lambda>k. Suc (?r k)) walk"
    by (intro map_cong) auto
  then have "map ?r' (a # walk) = 0 # map Suc (map ?r walk)"
    by simp
  moreover have "sorted (0 # map Suc (map ?r walk))"
    using Cons sorted_map_Suc [of "map ?r walk"] by simp
  ultimately show ?case by (simp only:)
qed

lemma rangeOver_any_order:
  assumes "distinct keys" and "mset walk = mset keys"
  shows "\<exists>rank. rangeOver rank keys = walk"
proof -
  let ?rank = "\<lambda>k. length (takeWhile (\<lambda>z. z \<noteq> k) walk)"
  have dw: "distinct walk" using assms by (metis mset_eq_imp_distinct_iff)
  have sets: "set walk = set keys" using assms(2) by (metis mset_eq_setD)
  have "sort_key ?rank keys = walk"
  proof (rule properties_for_sort_key [OF assms(2)])
    fix k assume k: "k \<in> set walk"
    have "filter (\<lambda>x. ?rank k = ?rank x) walk = [k]"
      using dw k by (rule filter_single) (auto dest: position_inj [OF k])
    moreover have "filter (\<lambda>x. ?rank k = ?rank x) keys = [k]"
      using assms(1) k sets by (intro filter_single) (auto dest: position_inj [OF k])
    ultimately show "filter (\<lambda>x. ?rank k = ?rank x) walk = filter (\<lambda>x. ?rank k = ?rank x) keys"
      by simp
  next
    show "sorted (map ?rank walk)" using dw by (rule position_sorted)
  qed
  then show ?thesis unfolding rangeOver_def by blast
qed

lemma permissionsLoop_iff:
  "permissionsLoop permissions requiredPermission resourceType \<longleftrightarrow>
     (\<exists>perm \<in> set permissions.
        perm = requiredPermission \<or> perm = resourceType @ '':*'' \<or> perm = ''*:*'')"
  by (induction permissions) auto

lemma permissionsLoop_roleMatches:
  "req = resourceType @ '':'' @ action \<Longrightarrow>
   permissionsLoop (fst (getRolePermissions roleKey rolesMap {})) req resourceType
     \<longleftrightarrow> roleMatches rolesMap resourceType action roleKey"
  by (auto simp: permissionsLoop_iff roleMatches_def expanded_def)

lemma rolesLoop_filter:
  "req = rt @ '':'' @ action \<Longrightarrow>
   rolesLoop keys rolesMap req rt matchedRoles matchedPermissions =
     (matchedRoles @ filter (roleMatches rolesMap rt action) keys,
      matchedPermissions @ replicate (length (filter (roleMatches rolesMap rt action) keys)) req)"
proof (induction keys arbitrary: matchedRoles matchedPermissions)
  case Nil
  show ?case by simp
next
  case (Cons k keys)
  show ?case
    using Cons.IH [OF Cons.prems] permissionsLoop_roleMatches [OF Cons.prems, of k rolesMap]
    by (simp add: replicate_append_same)
qed

lemma CheckWithDetails_evaluated:
  assumes "ensureScope (scopeFetch net) c = (None, c', calls)"
    and "RoleAssignments_List net \<lparr>RoleAssignmentListParams.User = User.Key user,
            RoleAssignmentListParams.Tenant = Resource.Tenant resource\<rparr> = Inr assignments"
    and "assignments \<noteq> []"
    and "Roles_List net \<lparr>PerPage = 100\<rparr> = Inr rolesResponse"
  shows "fst (CheckWithDetails net c user action resource) =
     (let req = Type resource @ '':'' @ action;
          matchedRoles = filter (roleMatches (rolesMapOf (Data rolesResponse)) (Type resource) action)
                           (rangeOver (rangeOrder net) (roleKeysOf assignments))
      in Inr \<lparr>Allowed = (matchedRoles \<noteq> []),
               Reason = (if matchedRoles \<noteq> []
                         then ''Granted by role(s): '' @ Join matchedRoles '', ''
                         else ''No role grants permission '' @ req),
               Debug = Some \<lparr>MatchedRoles = matchedRoles,
                              MatchedPermissions = replicate (length matchedRoles) req\<rparr>\<rparr>)"
proof -
  have t: "(if Resource.Tenant resource \<noteq> [] then Resource.Tenant resource else []) = Resource.Tenant resource"
    by simp
  show ?thesis
    using assms
    by (simp add: CheckWithDetails_def Let_def t
          rolesLoop_filter [of "Type resource @ '':'' @ action" "Type resource" action, simplified])
qed

lemma tenant_filter:
  "(if Resource.Tenant resource \<noteq> [] then Resource.Tenant resource else []) = Resource.Tenant resource"
  by simp

lemmas sample_defs = sampleRemote_def clientScoped_def clientStrict_def u1_def doc_def
  assigned_def scopeAnswer_def

lemmas run_defs = CheckWithDetails_def ensureScope_def HasScope_def roleKeysOf_def rangeOver_def
  rolesMapOf_def getRolePermissions.simps Let_def

text \<open>The definitions run on the sample data.\<close>

lemma remoteOf_ready:
  "fst (ensureScope (scopeFetch (remoteOf roleKeys roles)) clientScoped) = None"
  "RoleAssignments_List (remoteOf roleKeys roles) params = Inr (map assigned roleKeys)"
  "Roles_List (remoteOf roleKeys roles) listParams = Inr \<lparr>Data = roles\<rparr>"
  by (simp_all add: remoteOf_def sample_defs ensureScope_def HasScope_def)

lemma eval_editor:
  "fst (CheckWithDetails (remoteOf [''editor''] [viewer, editor]) clientScoped u1 ''read'' doc)
   = Inr \<lparr>Allowed = True, Reason = ''Granted by role(s): editor'',
          Debug = Some \<lparr>MatchedRoles = [''editor''], MatchedPermissions = [''doc:read'']\<rparr>\<rparr>"
  "fst (CheckWithDetails (remoteOf [''editor''] [viewer, editor]) clientScoped u1 ''delete'' doc)
   = Inr \<lparr>Allowed = False, Reason = ''No role grants permission doc:delete'',
          Debug = Some \<lparr>MatchedRoles = [], MatchedPermissions = []\<rparr>\<rparr>"
  by (simp_all add: remoteOf_def sample_defs run_defs viewer_def editor_def)

lemma eval_admin:
  "fst (CheckWithDetails (remoteOf [''admin''] [admin]) clientScoped u1 ''read'' fileResource)
   = Inr \<lparr>Allowed = True, Reason = ''Granted by role(s): admin'',
          Debug = Some \<lparr>MatchedRoles = [''admin''], MatchedPermissions = [''file:read'']\<rparr>\<rparr>"
  by (simp add: remoteOf_def sample_defs run_defs admin_def fileResource_def)

lemma eval_docAdmin:
  "fst (CheckWithDetails (remoteOf [''docAdmin''] [docAdmin]) clientScoped u1 ''delete'' doc)
   = Inr \<lparr>Allowed = True, Reason = ''Granted by role(s): docAdmin'',
          Debug = Some \<lparr>MatchedRoles = [''docAdmin''], MatchedPermissions = [''doc:delete'']\<rparr>\<rparr>"
  "fst (CheckWithDetails (remoteOf [''docAdmin''] [docAdmin]) clientScoped u1 ''read'' fileResource)
   = Inr \<lparr>Allowed = False, Reason = ''No role grants permission file:read'',
          Debug = Some \<lparr>MatchedRoles = [], MatchedPermissions = []\<rparr>\<rparr>"
  by (simp_all add: remoteOf_def sample_defs run_defs docAdmin_def fileResource_def)

lemma eval_odd:
  "fst (CheckWithDetails (remoteOf [''odd''] [odd]) clientScoped u1 ''b:*''
         \<lparr>Type = ''a'', Resource.Key = '''', Resource.Tenant = ''''\<rparr>)
   = Inr \<lparr>Allowed = True, Reason = ''Granted by role(s): odd'',
          Debug = Some \<lparr>MatchedRoles = [''odd''], MatchedPermissions = [''a:b:*'']\<rparr>\<rparr>"
  by (simp add: remoteOf_def sample_defs run_defs odd_def)

lemma eval_expanded:
  "expanded (rolesMapOf [viewer, editor]) ''editor'' = {''doc:write'', ''doc:read''}"
  "expanded (rolesMapOf [admin]) ''admin'' = {''*:*''}"
  "expanded (rolesMapOf [docAdmin]) ''docAdmin'' = {''doc:*''}"
  "expanded (rolesMapOf [odd]) ''odd'' = {''a:b:*''}"
  by (simp_all add: expanded_def rolesMapOf_def getRolePermissions.simps viewer_def editor_def
        admin_def docAdmin_def odd_def)

lemma eval_multi:
  "fst (CheckWithDetails (sampleRemote (Inr [assigned ''docAdmin'', assigned ''superuser'', assigned ''docAdmin''])
        (Inr \<lparr>Data = [docAdmin, superuser]\<rparr>))
     clientScoped u1 ''delete'' doc)
   = Inr \<lparr>Allowed = True, Reason = ''Granted by role(s): docAdmin, superuser'',
          Debug = Some \<lparr>MatchedRoles = [''docAdmin'', ''superuser''], MatchedPermissions = [''doc:delete'', ''doc:delete'']\<rparr>\<rparr>"
  by (simp add: sample_defs run_defs docAdmin_def superuser_def)

text \<open>
  C7. When the scope is ensured and the role-assignment fetch succeeds with zero
  assignments, \<^verbatim>\<open>CheckWithDetails\<close> returns a decision and no error, whatever
  \<^verbatim>\<open>ThrowOnError\<close> is: allowed is false and the reason is
  "User <key> has no role assignments", which contains "no role assignments". No request
  to the role catalog is among the requests the call issued.
\<close>

theorem CheckWithDetails_no_assignments:
  assumes "fst (ensureScope (scopeFetch net) c) = None"
    and "RoleAssignments_List net \<lparr>RoleAssignmentListParams.User = User.Key user,
            RoleAssignmentListParams.Tenant = Resource.Tenant resource\<rparr> = Inr []"
  shows "fst (CheckWithDetails net c user action resource) =
           Inr \<lparr>Allowed = False,
                Reason = ''User '' @ User.Key user @ '' has no role assignments'',
                Debug = None\<rparr>
         \<and> sublist ''no role assignments''
              (''User '' @ User.Key user @ '' has no role assignments'')
         \<and> (\<forall>params. RolesListCall params \<notin> set (snd (snd (CheckWithDetails net c user action resource))))"
proof -
  obtain c' calls where run: "ensureScope (scopeFetch net) c = (None, c', calls)"
    using assms(1) by (cases "ensureScope (scopeFetch net) c") auto
  from ensureScope_flag [OF run] have calls: "set calls \<subseteq> {ScopeCall}" by simp
  have res: "CheckWithDetails net c user action resource =
      (Inr \<lparr>Allowed = False,
                Reason = ''User '' @ User.Key user @ '' has no role assignments'',
                Debug = None\<rparr>, c',
       calls @ [RoleAssignmentsListCall \<lparr>RoleAssignmentListParams.User = User.Key user,
            RoleAssignmentListParams.Tenant = Resource.Tenant resource\<rparr>])"
    using run assms(2) by (simp add: CheckWithDetails_def Let_def tenant_filter)
  have "sublist ''no role assignments'' (''User '' @ User.Key user @ '' has no role assignments'')"
    using sublist_append_leftI [of "''no role assignments''" "''User '' @ User.Key user @ '' has ''"]
    by simp
  with res calls show ?thesis by auto
qed

text \<open>
  With \<^verbatim>\<open>ThrowOnError\<close> set and a catalog that could not be fetched, the user without
  assignments still gets the decision; the only request is the assignment list.
\<close>

theorem CheckWithDetails_no_assignments_witness:
  "fst (ensureScope (scopeFetch (sampleRemote (Inr []) (Inl unavailable))) clientStrict) = None
   \<and> RoleAssignments_List (sampleRemote (Inr []) (Inl unavailable))
        \<lparr>RoleAssignmentListParams.User = User.Key u1,
         RoleAssignmentListParams.Tenant = Resource.Tenant doc\<rparr> = Inr []
   \<and> ThrowOnError (config clientStrict)
   \<and> fst (CheckWithDetails (sampleRemote (Inr []) (Inl unavailable)) clientStrict u1 ''read'' doc)
       = Inr \<lparr>Allowed = False, Reason = ''User u1 has no role assignments'', Debug = None\<rparr>
   \<and> snd (snd (CheckWithDetails (sampleRemote (Inr []) (Inl unavailable)) clientStrict u1 ''read'' doc))
       = [RoleAssignmentsListCall \<lparr>RoleAssignmentListParams.User = ''u1'',
                                   RoleAssignmentListParams.Tenant = ''''\<rparr>]"
proof -
  let ?net = "sampleRemote (Inr []) (Inl unavailable)"
  have scope: "fst (ensureScope (scopeFetch ?net) clientStrict) = None"
    by (simp add: sample_defs ensureScope_def HasScope_def)
  have none: "RoleAssignments_List ?net
        \<lparr>RoleAssignmentListParams.User = User.Key u1,
         RoleAssignmentListParams.Tenant = Resource.Tenant doc\<rparr> = Inr []"
    by (simp add: sample_defs)
  have calls: "snd (snd (CheckWithDetails ?net clientStrict u1 ''read'' doc))
       = [RoleAssignmentsListCall \<lparr>RoleAssignmentListParams.User = ''u1'',
                                   RoleAssignmentListParams.Tenant = ''''\<rparr>]"
    by (simp add: sample_defs run_defs)
  show ?thesis
    using CheckWithDetails_no_assignments [OF scope none, where action = "''read''"] scope none calls
    by (simp add: u1_def clientStrict_def)
qed

text \<open>
  C3. When the scope is ensured and the fetch of the role assignments fails, or that
  fetch returns at least one assignment and the fetch of the role catalog fails, then
  with \<^verbatim>\<open>ThrowOnError\<close> set \<^verbatim>\<open>CheckWithDetails\<close> returns that error and no decision,
  and with the flag unset it returns no error and a decision with allowed false whose
  reason is a fixed prefix followed by the text of the error, so that the reason
  contains that text.
\<close>

theorem CheckWithDetails_transport_failure:
  assumes "fst (ensureScope (scopeFetch net) c) = None"
  shows "(RoleAssignments_List net \<lparr>RoleAssignmentListParams.User = User.Key user,
            RoleAssignmentListParams.Tenant = Resource.Tenant resource\<rparr> = Inl err \<longrightarrow>
          fst (CheckWithDetails net c user action resource) =
            (if ThrowOnError (config c) then Inl err
             else Inr \<lparr>Allowed = False,
                       Reason = ''Error fetching role assignments: '' @ Error err,
                       Debug = None\<rparr>))
       \<and> (RoleAssignments_List net \<lparr>RoleAssignmentListParams.User = User.Key user,
            RoleAssignmentListParams.Tenant = Resource.Tenant resource\<rparr> = Inr assignments
          \<and> assignments \<noteq> [] \<and> Roles_List net \<lparr>PerPage = 100\<rparr> = Inl err \<longrightarrow>
          fst (CheckWithDetails net c user action resource) =
            (if ThrowOnError (config c) then Inl err
             else Inr \<lparr>Allowed = False,
                       Reason = ''Error fetching roles: '' @ Error err,
                       Debug = None\<rparr>))
       \<and> sublist (Error err) (''Error fetching role assignments: '' @ Error err)
       \<and> sublist (Error err) (''Error fetching roles: '' @ Error err)"
proof -
  obtain c' calls where run: "ensureScope (scopeFetch net) c = (None, c', calls)"
    using assms(1) by (cases "ensureScope (scopeFetch net) c") auto
  from ensureScope_flag [OF run] have flag: "ThrowOnError (config c') = ThrowOnError (config c)"
    by simp
  show ?thesis
  proof (intro conjI impI)
    assume "RoleAssignments_List net \<lparr>RoleAssignmentListParams.User = User.Key user,
            RoleAssignmentListParams.Tenant = Resource.Tenant resource\<rparr> = Inl err"
    then show "fst (CheckWithDetails net c user action resource) =
            (if ThrowOnError (config c) then Inl err
             else Inr \<lparr>Allowed = False,
                       Reason = ''Error fetching role assignments: '' @ Error err,
                       Debug = None\<rparr>)"
      using run flag by (simp add: CheckWithDetails_def Let_def tenant_filter)
  next
    assume "RoleAssignments_List net \<lparr>RoleAssignmentListParams.User = User.Key user,
            RoleAssignmentListParams.Tenant = Resource.Tenant resource\<rparr> = Inr assignments
          \<and> assignments \<noteq> [] \<and> Roles_List net \<lparr>PerPage = 100\<rparr> = Inl err"
    then show "fst (CheckWithDetails net c user action resource) =
            (if ThrowOnError (config c) then Inl err
             else Inr \<lparr>Allowed = False,
                       Reason = ''Error fetching roles: '' @ Error err,
                       Debug = None\<rparr>)"
      using run flag by (simp add: CheckWithDetails_def Let_def tenant_filter)
  next
    show "sublist (Error err) (''Error fetching role assignments: '' @ Error err)"
      by (rule sublist_append_leftI)
  next
    show "sublist (Error err) (''Error fetching roles: '' @ Error err)"
      by (rule sublist_append_leftI)
  qed
qed

text \<open>
  Both fetches failing with a 503 error, on a strict and on a lenient client.
\<close>

theorem CheckWithDetails_transport_failure_witness:
  "fst (ensureScope (scopeFetch (sampleRemote (Inl unavailable) (Inl unavailable))) clientStrict) = None
   \<and> fst (ensureScope (scopeFetch (sampleRemote (Inr [assigned ''editor'']) (Inl unavailable))) clientScoped) = None
   \<and> ThrowOnError (config clientStrict) \<and> \<not> ThrowOnError (config clientScoped)
   \<and> fst (CheckWithDetails (sampleRemote (Inl unavailable) (Inl unavailable)) clientStrict u1 ''read'' doc)
       = Inl unavailable
   \<and> fst (CheckWithDetails (sampleRemote (Inl unavailable) (Inl unavailable)) clientScoped u1 ''read'' doc)
       = Inr \<lparr>Allowed = False,
              Reason = ''Error fetching role assignments: Service Unavailable (status: 503)'',
              Debug = None\<rparr>
   \<and> fst (CheckWithDetails (sampleRemote (Inr [assigned ''editor'']) (Inl unavailable)) clientStrict u1 ''read'' doc)
       = Inl unavailable
   \<and> fst (CheckWithDetails (sampleRemote (Inr [assigned ''editor'']) (Inl unavailable)) clientScoped u1 ''read'' doc)
       = Inr \<lparr>Allowed = False,
              Reason = ''Error fetching roles: Service Unavailable (status: 503)'',
              Debug = None\<rparr>"
proof -
  let ?down = "sampleRemote (Inl unavailable) (Inl unavailable)"
  let ?half = "sampleRemote (Inr [assigned ''editor'']) (Inl unavailable)"
  have scope: "fst (ensureScope fetch clientStrict) = None"
    "fst (ensureScope fetch clientScoped) = None" for fetch
    by (simp_all add: sample_defs ensureScope_def HasScope_def)
  have flags: "ThrowOnError (config clientStrict)" "\<not> ThrowOnError (config clientScoped)"
    by (simp_all add: sample_defs)
  have msg: "Error unavailable = ''Service Unavailable (status: 503)''"
    by (simp add: unavailable_def itoa_def digits.simps)
  show ?thesis
    using CheckWithDetails_transport_failure [OF scope(1), where net = ?down and user = u1
              and resource = doc and err = unavailable and action = "''read''" and assignments = "[]"]
      CheckWithDetails_transport_failure [OF scope(2), where net = ?down and user = u1
              and resource = doc and err = unavailable and action = "''read''" and assignments = "[]"]
      CheckWithDetails_transport_failure [OF scope(1), where net = ?half and user = u1
              and resource = doc and err = unavailable and action = "''read''"
              and assignments = "[assigned ''editor'']"]
      CheckWithDetails_transport_failure [OF scope(2), where net = ?half and user = u1
              and resource = doc and err = unavailable and action = "''read''"
              and assignments = "[assigned ''editor'']"]
      scope flags
    by (simp add: msg sampleRemote_def)
qed

lemma wildcard_other_type:
  assumes eq: "T @ '':*'' = rt @ '':'' @ action" and neq: "T \<noteq> rt"
  shows "prefix (rt @ '':'') T"
proof -
  from eq have "T @ '':*'' = (rt @ '':'') @ action" by simp
  then obtain us where "(T = (rt @ '':'') @ us \<and> us @ '':*'' = action)
                        \<or> (T @ us = rt @ '':'' \<and> '':*'' = us @ action)"
    unfolding append_eq_append_conv2 by blast
  then show ?thesis
  proof
    assume "T = (rt @ '':'') @ us \<and> us @ '':*'' = action"
    then show ?thesis by (simp add: prefix_def)
  next
    assume a: "T @ us = rt @ '':'' \<and> '':*'' = us @ action"
    then have "us = [] \<or> us = '':'' \<or> us = '':*''"
      by (auto simp: Cons_eq_append_conv)
    then show ?thesis
    proof (elim disjE)
      assume "us = []" with a show ?thesis by (simp add: prefix_def)
    next
      assume "us = '':''" with a neq show ?thesis by simp
    next
      assume "us = '':*''"
      with a have "T @ '':*'' = rt @ '':''" by simp
      then have "last (T @ '':*'') = last (rt @ '':'')" by simp
      then show ?thesis by simp
    qed
  qed
qed

lemma allowed_iff_matches:
  "filter (roleMatches m rt action) (rangeOver rank (roleKeysOf assignments)) \<noteq> [] \<longleftrightarrow>
     (\<exists>a \<in> set assignments. roleMatches m rt action (Role a))"
  by (auto simp: filter_empty_conv set_rangeOver set_roleKeysOf)

text \<open>
  C2, amended. When the scope is ensured, the assignment fetch returns at least one
  assignment and the catalog fetch succeeds, \<^verbatim>\<open>CheckWithDetails\<close> returns a decision, and
  allowed is true if and only if some assigned role matches: its expanded permission
  set contains "<resourceType>:<action>", "<resourceType>:*" or "*:*". In particular a
  role carrying "*:*" grants every action on every resource type, and a role carrying
  "<type>:*" grants every action on <type>. When "<type>:*" is the only permission the
  assigned roles expand to, no action on a different resource type <other> is granted,
  provided <type> is not "*" and does not begin with "<other>:".
\<close>

theorem CheckWithDetails_allowed_iff:
  assumes "fst (ensureScope (scopeFetch net) c) = None"
    and "RoleAssignments_List net \<lparr>RoleAssignmentListParams.User = User.Key user,
            RoleAssignmentListParams.Tenant = Resource.Tenant resource\<rparr> = Inr assignments"
    and "assignments \<noteq> []"
    and "Roles_List net \<lparr>PerPage = 100\<rparr> = Inr rolesResponse"
  shows "\<exists>response. fst (CheckWithDetails net c user action resource) = Inr response
     \<and> (Allowed response \<longleftrightarrow>
          (\<exists>a \<in> set assignments.
             roleMatches (rolesMapOf (Data rolesResponse)) (Type resource) action (Role a)))
     \<and> ((\<exists>a \<in> set assignments. ''*:*'' \<in> expanded (rolesMapOf (Data rolesResponse)) (Role a))
          \<longrightarrow> Allowed response)
     \<and> ((\<exists>a \<in> set assignments.
             Type resource @ '':*'' \<in> expanded (rolesMapOf (Data rolesResponse)) (Role a))
          \<longrightarrow> Allowed response)
     \<and> (\<forall>T. T \<noteq> Type resource \<and> T \<noteq> ''*'' \<and> \<not> prefix (Type resource @ '':'') T
             \<and> (\<forall>a \<in> set assignments.
                   expanded (rolesMapOf (Data rolesResponse)) (Role a) \<subseteq> {T @ '':*''})
          \<longrightarrow> \<not> Allowed response)"
proof -
  let ?m = "rolesMapOf (Data rolesResponse)"
  let ?rt = "Type resource"
  obtain c' calls where run: "ensureScope (scopeFetch net) c = (None, c', calls)"
    using assms(1) by (cases "ensureScope (scopeFetch net) c") auto
  define response where "response =
     \<lparr>Allowed = (\<exists>a \<in> set assignments. roleMatches ?m ?rt action (Role a)),
      Reason = (if filter (roleMatches ?m ?rt action) (rangeOver (rangeOrder net) (roleKeysOf assignments)) \<noteq> []
                then ''Granted by role(s): '' @ Join (filter (roleMatches ?m ?rt action) (rangeOver (rangeOrder net) (roleKeysOf assignments))) '', ''
                else ''No role grants permission '' @ ?rt @ '':'' @ action),
      Debug = Some \<lparr>MatchedRoles = filter (roleMatches ?m ?rt action) (rangeOver (rangeOrder net) (roleKeysOf assignments)),
                     MatchedPermissions = replicate (length (filter (roleMatches ?m ?rt action) (rangeOver (rangeOrder net) (roleKeysOf assignments)))) (?rt @ '':'' @ action)\<rparr>\<rparr>"
  have res: "fst (CheckWithDetails net c user action resource) = Inr response"
    using CheckWithDetails_evaluated [OF run assms(2) assms(3) assms(4), of action]
    by (simp add: Let_def response_def allowed_iff_matches)
  have allowed: "Allowed response \<longleftrightarrow> (\<exists>a \<in> set assignments. roleMatches ?m ?rt action (Role a))"
    by (simp add: response_def)
  have universal: "(\<exists>a \<in> set assignments. ''*:*'' \<in> expanded ?m (Role a)) \<longrightarrow> Allowed response"
    unfolding allowed roleMatches_def by blast
  have typed: "(\<exists>a \<in> set assignments. ?rt @ '':*'' \<in> expanded ?m (Role a)) \<longrightarrow> Allowed response"
    unfolding allowed roleMatches_def by blast
  have other: "\<not> Allowed response"
    if T: "T \<noteq> ?rt \<and> T \<noteq> ''*'' \<and> \<not> prefix (?rt @ '':'') T
             \<and> (\<forall>a \<in> set assignments. expanded ?m (Role a) \<subseteq> {T @ '':*''})" for T
  proof
    assume "Allowed response"
    then obtain a where a: "a \<in> set assignments" "roleMatches ?m ?rt action (Role a)"
      unfolding allowed by blast
    from T a(1) have sub: "expanded ?m (Role a) \<subseteq> {T @ '':*''}" by blast
    from a(2) sub have "T @ '':*'' = ?rt @ '':'' @ action \<or> T @ '':*'' = ?rt @ '':*''
        \<or> T @ '':*'' = ''*:*''"
      unfolding roleMatches_def by (metis singletonD subsetD)
    then show False
    proof (elim disjE)
      assume "T @ '':*'' = ?rt @ '':'' @ action"
      with T wildcard_other_type [of T ?rt action] show False by blast
    next
      assume "T @ '':*'' = ?rt @ '':*''" with T show False by simp
    next
      assume "T @ '':*'' = ''*:*''"
      then have "T @ '':*'' = ''*'' @ '':*''" by simp
      then have "T = ''*''" by (simp only: append_same_eq)
      with T show False by simp
    qed
  qed
  from res allowed universal typed other show ?thesis by blast
qed

text \<open>
  The editor/viewer catalog, a role with "*:*", and a role with "doc:*" asked about
  documents and about files.
\<close>

theorem CheckWithDetails_allowed_iff_witness:
  "fst (ensureScope (scopeFetch (remoteOf [''editor''] [viewer, editor])) clientScoped) = None
   \<and> map assigned [''editor''] \<noteq> []
   \<and> roleMatches (rolesMapOf [viewer, editor]) ''doc'' ''read'' ''editor''
   \<and> fst (CheckWithDetails (remoteOf [''editor''] [viewer, editor]) clientScoped u1 ''read'' doc)
       = Inr \<lparr>Allowed = True, Reason = ''Granted by role(s): editor'',
              Debug = Some \<lparr>MatchedRoles = [''editor''], MatchedPermissions = [''doc:read'']\<rparr>\<rparr>
   \<and> ''*:*'' \<in> expanded (rolesMapOf [admin]) ''admin''
   \<and> fst (CheckWithDetails (remoteOf [''admin''] [admin]) clientScoped u1 ''read'' fileResource)
       = Inr \<lparr>Allowed = True, Reason = ''Granted by role(s): admin'',
              Debug = Some \<lparr>MatchedRoles = [''admin''], MatchedPermissions = [''file:read'']\<rparr>\<rparr>
   \<and> Type doc @ '':*'' \<in> expanded (rolesMapOf [docAdmin]) ''docAdmin''
   \<and> fst (CheckWithDetails (remoteOf [''docAdmin''] [docAdmin]) clientScoped u1 ''delete'' doc)
       = Inr \<lparr>Allowed = True, Reason = ''Granted by role(s): docAdmin'',
              Debug = Some \<lparr>MatchedRoles = [''docAdmin''], MatchedPermissions = [''doc:delete'']\<rparr>\<rparr>
   \<and> ''doc'' \<noteq> Type fileResource \<and> ''doc'' \<noteq> ''*'' \<and> \<not> prefix (Type fileResource @ '':'') ''doc''
   \<and> expanded (rolesMapOf [docAdmin]) ''docAdmin'' \<subseteq> {''doc'' @ '':*''}
   \<and> fst (CheckWithDetails (remoteOf [''docAdmin''] [docAdmin]) clientScoped u1 ''read'' fileResource)
       = Inr \<lparr>Allowed = False, Reason = ''No role grants permission file:read'',
              Debug = Some \<lparr>MatchedRoles = [], MatchedPermissions = []\<rparr>\<rparr>"
proof -
  have ne: "map assigned [k] \<noteq> []" for k by simp
  have types: "Type doc = ''doc''" "Type fileResource = ''file''"
    by (simp_all add: doc_def fileResource_def)
  have m: "roleMatches (rolesMapOf [viewer, editor]) ''doc'' ''read'' ''editor''"
    by (simp add: roleMatches_def eval_expanded)
  show ?thesis
    using
      CheckWithDetails_allowed_iff [where net = "remoteOf [''editor''] [viewer, editor]" and c = clientScoped
          and user = u1 and resource = doc and action = "''read''"
          and assignments = "map assigned [''editor'']" and rolesResponse = "\<lparr>Data = [viewer, editor]\<rparr>",
        OF remoteOf_ready(1) remoteOf_ready(2) ne remoteOf_ready(3)]
      CheckWithDetails_allowed_iff [where net = "remoteOf [''admin''] [admin]" and c = clientScoped
          and user = u1 and resource = fileResource and action = "''read''"
          and assignments = "map assigned [''admin'']" and rolesResponse = "\<lparr>Data = [admin]\<rparr>",
        OF remoteOf_ready(1) remoteOf_ready(2) ne remoteOf_ready(3)]
      CheckWithDetails_allowed_iff [where net = "remoteOf [''docAdmin''] [docAdmin]" and c = clientScoped
          and user = u1 and resource = doc and action = "''delete''"
          and assignments = "map assigned [''docAdmin'']" and rolesResponse = "\<lparr>Data = [docAdmin]\<rparr>",
        OF remoteOf_ready(1) remoteOf_ready(2) ne remoteOf_ready(3)]
      CheckWithDetails_allowed_iff [where net = "remoteOf [''docAdmin''] [docAdmin]" and c = clientScoped
          and user = u1 and resource = fileResource and action = "''read''"
          and assignments = "map assigned [''docAdmin'']" and rolesResponse = "\<lparr>Data = [docAdmin]\<rparr>",
        OF remoteOf_ready(1) remoteOf_ready(2) ne remoteOf_ready(3)]
      m types
    by (simp add: eval_editor eval_admin eval_docAdmin eval_expanded remoteOf_ready)
qed

text \<open>
  Without the proviso the last part fails. The role \<^verbatim>\<open>odd\<close> expands to the single
  permission "a:b:*", the type wildcard of the type "a:b"; the action "b:*" on the
  different type "a" is granted, because the required string "a:b:*" is that same
  string. The role \<^verbatim>\<open>admin\<close> expands to "*:*", the type wildcard of the type "*",
  and an action on the different type "file" is granted.
\<close>

theorem type_wildcard_other_type_counterexample:
  "expanded (rolesMapOf [odd]) ''odd'' = {''a:b'' @ '':*''}
   \<and> ''a:b'' \<noteq> ''a''
   \<and> fst (CheckWithDetails (remoteOf [''odd''] [odd]) clientScoped u1 ''b:*''
         \<lparr>Type = ''a'', Resource.Key = '''', Resource.Tenant = ''''\<rparr>)
       = Inr \<lparr>Allowed = True, Reason = ''Granted by role(s): odd'',
              Debug = Some \<lparr>MatchedRoles = [''odd''], MatchedPermissions = [''a:b:*'']\<rparr>\<rparr>
   \<and> expanded (rolesMapOf [admin]) ''admin'' = {''*'' @ '':*''}
   \<and> ''*'' \<noteq> ''file''
   \<and> fst (CheckWithDetails (remoteOf [''admin''] [admin]) clientScoped u1 ''read'' fileResource)
       = Inr \<lparr>Allowed = True, Reason = ''Granted by role(s): admin'',
              Debug = Some \<lparr>MatchedRoles = [''admin''], MatchedPermissions = [''file:read'']\<rparr>\<rparr>"
  by (simp add: eval_expanded eval_odd eval_admin)

text \<open>
  C10. When an evaluation reaches the matching step (scope ensured, at least one
  assignment, catalog fetched), the decision carries debug information in which the
  matched roles are exactly the assigned role keys that match, each once, and
  \<^verbatim>\<open>matchedPermissions\<close> holds the required string "<resourceType>:<action>" once
  per matched role and nothing else: never the wildcard that produced the match, and
  one entry for a role even when several of its permissions match.
\<close>

theorem matchedPermissions_required_string:
  assumes "fst (ensureScope (scopeFetch net) c) = None"
    and "RoleAssignments_List net \<lparr>RoleAssignmentListParams.User = User.Key user,
            RoleAssignmentListParams.Tenant = Resource.Tenant resource\<rparr> = Inr assignments"
    and "assignments \<noteq> []"
    and "Roles_List net \<lparr>PerPage = 100\<rparr> = Inr rolesResponse"
  shows "\<exists>response debug.
       fst (CheckWithDetails net c user action resource) = Inr response
     \<and> Debug response = Some debug
     \<and> distinct (MatchedRoles debug)
     \<and> set (MatchedRoles debug) =
         {roleKey \<in> Role ` set assignments.
            roleMatches (rolesMapOf (Data rolesResponse)) (Type resource) action roleKey}
     \<and> MatchedPermissions debug =
         replicate (length (MatchedRoles debug)) (Type resource @ '':'' @ action)"
proof -
  obtain c' calls where run: "ensureScope (scopeFetch net) c = (None, c', calls)"
    using assms(1) by (cases "ensureScope (scopeFetch net) c") auto
  let ?matched = "filter (roleMatches (rolesMapOf (Data rolesResponse)) (Type resource) action)
                    (rangeOver (rangeOrder net) (roleKeysOf assignments))"
  have "distinct ?matched"
    by (simp add: distinct_rangeOver distinct_roleKeysOf)
  moreover have "set ?matched = {roleKey \<in> Role ` set assignments.
            roleMatches (rolesMapOf (Data rolesResponse)) (Type resource) action roleKey}"
    by (auto simp: set_rangeOver set_roleKeysOf)
  ultimately show ?thesis
    using CheckWithDetails_evaluated [OF run assms(2) assms(3) assms(4), of action]
    by (simp add: Let_def)
qed

text \<open>
  A user assigned \<^verbatim>\<open>docAdmin\<close> (matching through "doc:*") twice and \<^verbatim>\<open>superuser\<close>
  (matching through three of its permissions): two matched roles, and the required
  string "doc:delete" twice.
\<close>

theorem matchedPermissions_required_string_witness:
  "fst (ensureScope (scopeFetch (sampleRemote
          (Inr [assigned ''docAdmin'', assigned ''superuser'', assigned ''docAdmin''])
          (Inr \<lparr>Data = [docAdmin, superuser]\<rparr>))) clientScoped) = None
   \<and> [assigned ''docAdmin'', assigned ''superuser'', assigned ''docAdmin''] \<noteq> []
   \<and> fst (CheckWithDetails (sampleRemote
          (Inr [assigned ''docAdmin'', assigned ''superuser'', assigned ''docAdmin''])
          (Inr \<lparr>Data = [docAdmin, superuser]\<rparr>)) clientScoped u1 ''delete'' doc)
       = Inr \<lparr>Allowed = True, Reason = ''Granted by role(s): docAdmin, superuser'',
              Debug = Some \<lparr>MatchedRoles = [''docAdmin'', ''superuser''],
                             MatchedPermissions = [''doc:delete'', ''doc:delete'']\<rparr>\<rparr>"
proof -
  let ?as = "[assigned ''docAdmin'', assigned ''superuser'', assigned ''docAdmin'']"
  let ?net = "sampleRemote (Inr ?as) (Inr \<lparr>Data = [docAdmin, superuser]\<rparr>)"
  have scope: "fst (ensureScope (scopeFetch ?net) clientScoped) = None"
    by (simp add: sample_defs ensureScope_def HasScope_def)
  have as: "RoleAssignments_List ?net \<lparr>RoleAssignmentListParams.User = User.Key u1,
            RoleAssignmentListParams.Tenant = Resource.Tenant doc\<rparr> = Inr ?as"
    by (simp add: sampleRemote_def)
  have ne: "?as \<noteq> []" by simp
  have roles: "Roles_List ?net \<lparr>PerPage = 100\<rparr> = Inr \<lparr>Data = [docAdmin, superuser]\<rparr>"
    by (simp add: sampleRemote_def)
  show ?thesis
    using matchedPermissions_required_string [OF scope as ne roles, where action = "''delete''"]
      scope eval_multi
    by simp
qed

section \<open>Transport with retry: results\<close>

lemma backoff_values:
  "backoff 1 = 100 * millisecond" "backoff 2 = 400 * millisecond" "backoff 3 = 900 * millisecond"
  by (simp_all add: backoff_def millisecond_def)

lemma doRequest_retryable:
  "doRequest t hasResult (SendFailed e) = Some (OtherError (''request failed: '' @ Error e))"
  "400 \<le> status \<Longrightarrow> doRequest t hasResult (Received status body) = Some (parseError t status body)"
  by (simp_all add: doRequest_def)

lemma parseError_status:
  "\<exists>apiErr. parseError t status body = PermisErr apiErr \<and> StatusCode apiErr = status"
  by (auto simp: parseError_def Let_def split: option.splits)

lemma retryable_not_clientError:
  assumes "(\<exists>e. exchange = SendFailed e) \<or> (\<exists>status body. exchange = Received status body \<and> 500 \<le> status)"
  shows "\<exists>err. doRequest t hasResult exchange = Some err \<and> \<not> clientError err"
  using assms
proof
  assume "\<exists>e. exchange = SendFailed e"
  then show ?thesis by (auto simp: doRequest_retryable)
next
  assume "\<exists>status body. exchange = Received status body \<and> 500 \<le> status"
  then obtain status body where e: "exchange = Received status body" "500 \<le> status" by blast
  obtain apiErr where "parseError t status body = PermisErr apiErr" "StatusCode apiErr = status"
    using parseError_status by blast
  with e show ?thesis by (simp add: doRequest_retryable)
qed

lemmas transport_defs = sampleTransport_def defaultConfig_def DefaultRetryAttempts_def
  twoFailures_def alwaysDown_def notFound_def neverCancelled_def cancelledAt_def
  doRequest_def parseError_def

text \<open>
  C4. With the default \<^verbatim>\<open>RetryAttempts\<close> (three retries after the first attempt): a call
  whose first two attempts fail with a structured error of status 500 and whose third
  attempt succeeds, with no cancellation, returns success after exactly the attempts 0,
  1 and 2, with a wait of 100 ms before the second and of 400 ms before the third
  (attempt squared times 100 ms, strictly increasing). A call whose first attempt fails
  with a structured error of a status in [400,500) returns that error after exactly one
  attempt and no wait. A call all of whose exchanges end in a network-level error or a
  response of status 500 or more is retried until the budget is spent: the attempts 0
  to 3, with waits of 100, 400 and 900 ms, and the error of the last attempt is
  returned.
\<close>

theorem Request_retry_policy:
  assumes "RetryAttempts cfg = DefaultRetryAttempts"
  shows "(doRequest t hasResult (outcome t 0) = Some (PermisErr e0) \<and> StatusCode e0 = 500
          \<and> doRequest t hasResult (outcome t 1) = Some (PermisErr e1) \<and> StatusCode e1 = 500
          \<and> doRequest t hasResult (outcome t 2) = None
          \<and> ctxDone t 1 = None \<and> ctxDone t 2 = None \<longrightarrow>
          BaseClient_Request t cfg hasResult =
            (None, [Attempt 0, Sleep (100 * millisecond), Attempt 1,
                    Sleep (400 * millisecond), Attempt 2]))
       \<and> (doRequest t hasResult (outcome t 0) = Some (PermisErr e)
          \<and> 400 \<le> StatusCode e \<and> StatusCode e < 500 \<longrightarrow>
          BaseClient_Request t cfg hasResult = (Some (PermisErr e), [Attempt 0]))
       \<and> ((\<forall>i \<in> {0..3}. ctxDone t i = None
              \<and> ((\<exists>err. outcome t i = SendFailed err)
                   \<or> (\<exists>status body. outcome t i = Received status body \<and> 500 \<le> status))) \<longrightarrow>
          BaseClient_Request t cfg hasResult =
            (doRequest t hasResult (outcome t 3),
             [Attempt 0, Sleep (100 * millisecond), Attempt 1, Sleep (400 * millisecond),
              Attempt 2, Sleep (900 * millisecond), Attempt 3])
          \<and> doRequest t hasResult (outcome t 3) \<noteq> None)
       \<and> 100 * millisecond < 400 * millisecond \<and> 400 * millisecond < 900 * millisecond"
proof -
  have twice: "BaseClient_Request t cfg hasResult =
            (None, [Attempt 0, Sleep (100 * millisecond), Attempt 1,
                    Sleep (400 * millisecond), Attempt 2])"
    if "doRequest t hasResult (outcome t 0) = Some (PermisErr e0) \<and> StatusCode e0 = 500
          \<and> doRequest t hasResult (outcome t 1) = Some (PermisErr e1) \<and> StatusCode e1 = 500
          \<and> doRequest t hasResult (outcome t 2) = None
          \<and> ctxDone t 1 = None \<and> ctxDone t 2 = None"
    using that assms
    by (simp add: BaseClient_Request_def requestLoop.simps DefaultRetryAttempts_def backoff_values)
  have client: "BaseClient_Request t cfg hasResult = (Some (PermisErr e), [Attempt 0])"
    if "doRequest t hasResult (outcome t 0) = Some (PermisErr e)
          \<and> 400 \<le> StatusCode e \<and> StatusCode e < 500"
    using that assms
    by (simp add: BaseClient_Request_def requestLoop.simps DefaultRetryAttempts_def)
  have budget: "BaseClient_Request t cfg hasResult =
            (doRequest t hasResult (outcome t 3),
             [Attempt 0, Sleep (100 * millisecond), Attempt 1, Sleep (400 * millisecond),
              Attempt 2, Sleep (900 * millisecond), Attempt 3])
          \<and> doRequest t hasResult (outcome t 3) \<noteq> None"
    if all: "\<forall>i \<in> {0..3}. ctxDone t i = None
              \<and> ((\<exists>err. outcome t i = SendFailed err)
                   \<or> (\<exists>status body. outcome t i = Received status body \<and> 500 \<le> status))"
  proof -
    have step: "ctxDone t i = None
        \<and> (\<exists>err. doRequest t hasResult (outcome t i) = Some err \<and> \<not> clientError err)"
      if "i \<in> {0..3}" for i
      using all that retryable_not_clientError [of "outcome t i" t hasResult] by blast
    obtain r0 where r0: "doRequest t hasResult (outcome t 0) = Some r0" "\<not> clientError r0"
      using step [of 0] by auto
    obtain r1 where r1: "doRequest t hasResult (outcome t 1) = Some r1" "\<not> clientError r1"
      "ctxDone t 1 = None"
      using step [of 1] by auto
    obtain r2 where r2: "doRequest t hasResult (outcome t 2) = Some r2" "\<not> clientError r2"
      "ctxDone t 2 = None"
      using step [of 2] by auto
    obtain r3 where r3: "doRequest t hasResult (outcome t 3) = Some r3" "\<not> clientError r3"
      "ctxDone t 3 = None"
      using step [of 3] by auto
    show ?thesis
      using assms r0 r1 r2 r3
      by (simp add: BaseClient_Request_def requestLoop.simps DefaultRetryAttempts_def
            backoff_values)
  qed
  have "100 * millisecond < 400 * millisecond" "400 * millisecond < 900 * millisecond"
    by (simp_all add: millisecond_def)
  with twice client budget show ?thesis by blast
qed

text \<open>
  A server that answers 500 twice and then 200, one that answers 404, and one that
  always answers 500.
\<close>

theorem Request_retry_policy_witness:
  "RetryAttempts defaultConfig = DefaultRetryAttempts
   \<and> doRequest (sampleTransport twoFailures neverCancelled) True
         (outcome (sampleTransport twoFailures neverCancelled) 0)
       = Some (PermisErr \<lparr>Message = ''down'', Code = '''', StatusCode = 500\<rparr>)
   \<and> BaseClient_Request (sampleTransport twoFailures neverCancelled) defaultConfig True
       = (None, [Attempt 0, Sleep 100000000, Attempt 1, Sleep 400000000, Attempt 2])
   \<and> doRequest (sampleTransport notFound neverCancelled) True
         (outcome (sampleTransport notFound neverCancelled) 0)
       = Some (PermisErr \<lparr>Message = ''missing'', Code = '''', StatusCode = 404\<rparr>)
   \<and> BaseClient_Request (sampleTransport notFound neverCancelled) defaultConfig True
       = (Some (PermisErr \<lparr>Message = ''missing'', Code = '''', StatusCode = 404\<rparr>), [Attempt 0])
   \<and> BaseClient_Request (sampleTransport alwaysDown neverCancelled) defaultConfig True
       = (Some (PermisErr \<lparr>Message = ''down'', Code = '''', StatusCode = 500\<rparr>),
          [Attempt 0, Sleep 100000000, Attempt 1, Sleep 400000000, Attempt 2,
           Sleep 900000000, Attempt 3])"
proof -
  have cfg: "RetryAttempts defaultConfig = DefaultRetryAttempts"
    by (simp add: defaultConfig_def)
  have down: "\<forall>i \<in> {0..3}. ctxDone (sampleTransport alwaysDown neverCancelled) i = None
              \<and> ((\<exists>err. outcome (sampleTransport alwaysDown neverCancelled) i = SendFailed err)
                   \<or> (\<exists>status body. outcome (sampleTransport alwaysDown neverCancelled) i
                          = Received status body \<and> 500 \<le> status))"
    by (simp add: transport_defs)
  show ?thesis
    using Request_retry_policy [OF cfg, where t = "sampleTransport twoFailures neverCancelled"
        and hasResult = True
        and ?e0.0 = "\<lparr>Message = ''down'', Code = '''', StatusCode = 500\<rparr>"
        and ?e1.0 = "\<lparr>Message = ''down'', Code = '''', StatusCode = 500\<rparr>"
        and e = "\<lparr>Message = ''down'', Code = '''', StatusCode = 500\<rparr>"]
      Request_retry_policy [OF cfg, where t = "sampleTransport notFound neverCancelled"
        and hasResult = True
        and ?e0.0 = "\<lparr>Message = ''missing'', Code = '''', StatusCode = 404\<rparr>"
        and ?e1.0 = "\<lparr>Message = ''missing'', Code = '''', StatusCode = 404\<rparr>"
        and e = "\<lparr>Message = ''missing'', Code = '''', StatusCode = 404\<rparr>"]
      Request_retry_policy [OF cfg, where t = "sampleTransport alwaysDown neverCancelled"
        and hasResult = True
        and ?e0.0 = "\<lparr>Message = ''down'', Code = '''', StatusCode = 500\<rparr>"
        and ?e1.0 = "\<lparr>Message = ''down'', Code = '''', StatusCode = 500\<rparr>"
        and e = "\<lparr>Message = ''down'', Code = '''', StatusCode = 500\<rparr>"]
      cfg down
    by (simp add: transport_defs millisecond_def)
qed

lemma attempts_append: "attempts (xs @ ys) = attempts xs @ attempts ys"
  by (induction xs rule: attempts.induct) simp_all

lemma requestLoop_cancelled:
  assumes "ctxDone t k = Some ctxErr" and "0 < k" and "k \<le> RetryAttempts cfg"
    and "\<forall>i. a \<le> i \<and> i < k \<longrightarrow>
           (0 < i \<longrightarrow> ctxDone t i = None)
           \<and> (\<exists>err. doRequest t hasResult (outcome t i) = Some err \<and> \<not> clientError err)"
    and "0 \<le> a" and "a \<le> k"
  shows "\<exists>evs. requestLoop t cfg hasResult a lastErr trace
                 = (Some ctxErr, trace @ evs @ [Cancelled (backoff k)])
               \<and> attempts evs = [a..k - 1]"
  using assms(4-)
proof (induction "nat (k - a)" arbitrary: a lastErr trace)
  case 0
  then have "a = k" by simp
  with assms(1-3) have "requestLoop t cfg hasResult a lastErr trace
                 = (Some ctxErr, trace @ [] @ [Cancelled (backoff k)])"
    by (simp add: requestLoop.simps)
  moreover have "attempts [] = [a..k - 1]" using \<open>a = k\<close> by simp
  ultimately show ?case by blast
next
  case (Suc n)
  then have lt: "a < k" by simp
  with Suc.prems obtain err where err: "doRequest t hasResult (outcome t a) = Some err"
      "\<not> clientError err" and quiet: "0 < a \<longrightarrow> ctxDone t a = None"
    by (metis order_refl)
  let ?trace' = "trace @ (if a > 0 then [Sleep (backoff a)] else []) @ [Attempt a]"
  have unfold: "requestLoop t cfg hasResult a lastErr trace
                  = requestLoop t cfg hasResult (a + 1) (Some err) ?trace'"
    using lt assms(3) err quiet
    by (subst requestLoop.simps) (simp add: Let_def)
  have "n = nat (k - (a + 1))" using Suc.hyps(2) by simp
  moreover have "\<forall>i. a + 1 \<le> i \<and> i < k \<longrightarrow>
           (0 < i \<longrightarrow> ctxDone t i = None)
           \<and> (\<exists>err. doRequest t hasResult (outcome t i) = Some err \<and> \<not> clientError err)"
    using Suc.prems(1) by simp
  ultimately obtain evs where evs:
      "requestLoop t cfg hasResult (a + 1) (Some err) ?trace'
         = (Some ctxErr, ?trace' @ evs @ [Cancelled (backoff k)])"
      "attempts evs = [a + 1..k - 1]"
    using Suc.hyps(1) [of "a + 1" "Some err" ?trace'] Suc.prems(2) lt by auto
  let ?evs = "(if a > 0 then [Sleep (backoff a)] else []) @ [Attempt a] @ evs"
  have "requestLoop t cfg hasResult a lastErr trace
          = (Some ctxErr, trace @ ?evs @ [Cancelled (backoff k)])"
    using unfold evs(1) by simp
  moreover have "attempts ?evs = [a..k - 1]"
    using evs(2) lt by (simp add: attempts_append upto_rec1 [of a "k - 1"])
  ultimately show ?case by blast
qed

text \<open>
  C8. If the attempts 0 to k - 1 of a call all failed with errors that are retried,
  none of the waits between them was cancelled, and the context is cancelled during
  the backoff wait before attempt k (with k at least 1 and within the budget), then
  \<^verbatim>\<open>Request\<close> returns the error of the context, the exchanges it made are exactly the
  attempts 0 to k - 1, and the last thing it did is the wait that was cut short: no
  further attempt is made.
\<close>

theorem Request_cancelled_in_backoff:
  assumes "0 < k" and "k \<le> RetryAttempts cfg"
    and "ctxDone t k = Some ctxErr"
    and "\<forall>i. 0 \<le> i \<and> i < k \<longrightarrow>
           (0 < i \<longrightarrow> ctxDone t i = None)
           \<and> (\<exists>err. doRequest t hasResult (outcome t i) = Some err \<and> \<not> clientError err)"
  shows "fst (BaseClient_Request t cfg hasResult) = Some ctxErr
       \<and> attempts (snd (BaseClient_Request t cfg hasResult)) = [0..k - 1]
       \<and> last (snd (BaseClient_Request t cfg hasResult)) = Cancelled (backoff k)"
proof -
  obtain evs where "requestLoop t cfg hasResult 0 None []
                 = (Some ctxErr, [] @ evs @ [Cancelled (backoff k)])"
      "attempts evs = [0..k - 1]"
    using requestLoop_cancelled [OF assms(3) assms(1) assms(2) assms(4), of None "[]"] assms(1)
    by auto
  then show ?thesis
    by (simp add: BaseClient_Request_def attempts_append)
qed

text \<open>
  A server that always answers 500, and a context cancelled during the second wait.
\<close>

theorem Request_cancelled_in_backoff_witness:
  "(0::int) < 2 \<and> 2 \<le> RetryAttempts defaultConfig
   \<and> ctxDone (sampleTransport alwaysDown (cancelledAt 2)) 2 = Some canceled
   \<and> fst (BaseClient_Request (sampleTransport alwaysDown (cancelledAt 2)) defaultConfig True)
       = Some canceled
   \<and> snd (BaseClient_Request (sampleTransport alwaysDown (cancelledAt 2)) defaultConfig True)
       = [Attempt 0, Sleep 100000000, Attempt 1, Cancelled 400000000]
   \<and> attempts (snd (BaseClient_Request (sampleTransport alwaysDown (cancelledAt 2)) defaultConfig True))
       = [0, 1]"
proof -
  let ?t = "sampleTransport alwaysDown (cancelledAt 2)"
  have k: "(0::int) < 2" "2 \<le> RetryAttempts defaultConfig"
    by (simp_all add: transport_defs)
  have c: "ctxDone ?t 2 = Some canceled"
    by (simp add: transport_defs)
  have before: "\<forall>i. 0 \<le> i \<and> i < 2 \<longrightarrow>
           (0 < i \<longrightarrow> ctxDone ?t i = None)
           \<and> (\<exists>err. doRequest ?t True (outcome ?t i) = Some err \<and> \<not> clientError err)"
    by (simp add: transport_defs)
  have run: "snd (BaseClient_Request ?t defaultConfig True)
       = [Attempt 0, Sleep 100000000, Attempt 1, Cancelled 400000000]"
    by (simp add: BaseClient_Request_def requestLoop.simps transport_defs backoff_def)
  show ?thesis
    using Request_cancelled_in_backoff [OF k c before] k c run
    by simp
qed

section \<open>Bulk evaluation: results\<close>

text \<open>
  For a batch in which every user is a string, \<^verbatim>\<open>BulkCheck\<close> returns no error and one
  result per check, in the order of the checks, each paired with its request; an error
  of one item is its decision with allowed false and the error text as reason, and the
  later items are evaluated all the same.
\<close>

lemma length_itemResults: "length (itemResults net i checks c) = length checks"
  by (induction checks arbitrary: i c) (simp_all add: Let_def)

lemma requests_itemResults: "map Request (itemResults net i checks c) = checks"
  by (induction checks arbitrary: i c) (simp_all add: Let_def)

lemma BulkCheck_loop_strings:
  assumes "\<forall>check \<in> set checks. \<exists>key. CheckRequest.User check = AString key"
    and "i + length checks \<le> length results"
  shows "fst (BulkCheck_loop net i checks c results calls) =
           Inr (take i results @ itemResults net i checks c @ drop (i + length checks) results)"
  using assms
proof (induction checks arbitrary: i c results calls)
  case Nil
  then show ?case by simp
next
  case (Cons check rest)
  then obtain key where key: "CheckRequest.User check = AString key" by auto
  obtain r c' calls' where run:
    "CheckWithDetails (net i) c \<lparr>User.Key = key\<rparr> (Action check) (resourceOf check) = (r, c', calls')"
    by (cases "CheckWithDetails (net i) c \<lparr>User.Key = key\<rparr> (Action check) (resourceOf check)")
  let ?item = "\<lparr>Request = check, Response = decisionOf r\<rparr>"
  from Cons.prems have i: "i < length results" and rest: "Suc i + length rest \<le> length results"
    "\<forall>check \<in> set rest. \<exists>key. CheckRequest.User check = AString key"
    by simp_all
  have step: "fst (BulkCheck_loop net i (check # rest) c results calls)
                = fst (BulkCheck_loop net (Suc i) rest c' (results[i := ?item]) (calls @ calls'))"
    using key run by (cases r) (simp_all add: decisionOf_def)
  have "fst (BulkCheck_loop net (Suc i) rest c' (results[i := ?item]) (calls @ calls'))
          = Inr (take (Suc i) (results[i := ?item]) @ itemResults net (Suc i) rest c'
                  @ drop (Suc i + length rest) (results[i := ?item]))"
    using Cons.IH [OF rest(2), of "Suc i" "results[i := ?item]" c' "calls @ calls'"] rest(1)
    by simp
  also have "take (Suc i) (results[i := ?item]) = take i results @ [?item]"
    using i by (simp add: take_Suc_conv_app_nth)
  also have "drop (Suc i + length rest) (results[i := ?item]) = drop (i + length (check # rest)) results"
    by simp
  finally show ?case
    using step key run by (simp add: Let_def)
qed

lemma BulkCheck_string_users:
  assumes "\<forall>check \<in> set checks. \<exists>key. CheckRequest.User check = AString key"
  shows "fst (BulkCheck net c checks) = Inr (itemResults net 0 checks c, None)"
    and "length (itemResults net 0 checks c) = length checks"
    and "map Request (itemResults net 0 checks c) = checks"
proof -
  obtain r c' calls where run:
    "BulkCheck_loop net 0 checks c (replicate (length checks) zeroResult) [] = (r, c', calls)"
    by (cases "BulkCheck_loop net 0 checks c (replicate (length checks) zeroResult) []")
  with BulkCheck_loop_strings [OF assms, of 0 "replicate (length checks) zeroResult" net c "[]"]
  have "r = Inr (itemResults net 0 checks c)" by simp
  with run show "fst (BulkCheck net c checks) = Inr (itemResults net 0 checks c, None)"
    by (simp add: BulkCheck_def)
qed (simp_all add: length_itemResults requests_itemResults)

text \<open>
  Three checks of the same user on a strict client, where the service fails during
  the second: three results in order, the second one disallowed with the error text.
\<close>

lemma BulkCheck_strings_example:
  "fst (BulkCheck (\<lambda>i. if i = 1 then sampleRemote (Inl unavailable) (Inl unavailable)
                        else remoteOf [''editor''] [viewer, editor]) clientStrict
          [readDoc (AString ''u1''), readDoc (AString ''u1''), readDoc (AString ''u1'')])
   = Inr ([\<lparr>Request = readDoc (AString ''u1''),
             Response = \<lparr>Allowed = True, Reason = ''Granted by role(s): editor'',
                Debug = Some \<lparr>MatchedRoles = [''editor''], MatchedPermissions = [''doc:read'']\<rparr>\<rparr>\<rparr>,
           \<lparr>Request = readDoc (AString ''u1''),
             Response = \<lparr>Allowed = False, Reason = ''Service Unavailable (status: 503)'', Debug = None\<rparr>\<rparr>,
           \<lparr>Request = readDoc (AString ''u1''),
             Response = \<lparr>Allowed = True, Reason = ''Granted by role(s): editor'',
                Debug = Some \<lparr>MatchedRoles = [''editor''], MatchedPermissions = [''doc:read'']\<rparr>\<rparr>\<rparr>], None)"
  by (simp add: BulkCheck_def readDoc_def resourceOf_def zeroResult_def remoteOf_def sample_defs run_defs viewer_def editor_def unavailable_def itoa_def digits.simps)

text \<open>
  C5. Not every batch of n checks yields n results. When every user is a string the
  batch is evaluated as stated above. A batch of one check whose user is an integer
  makes the assertion \<^verbatim>\<open>check.User.(string)\<close> panic: the call aborts and returns
  no result at all.
\<close>

theorem BulkCheck_single_item_panics:
  "fst (BulkCheck (\<lambda>i. remoteOf [''editor''] [viewer, editor]) clientScoped [readDoc AOther])
     = Inl InterfaceConversion"
  by (simp add: BulkCheck_def readDoc_def)

lemma BulkCheck_loop_panics:
  "\<exists>check \<in> set checks. \<forall>key. CheckRequest.User check \<noteq> AString key \<Longrightarrow>
     fst (BulkCheck_loop net i checks c results calls) = Inl InterfaceConversion"
proof (induction checks arbitrary: i c results calls)
  case Nil
  then show ?case by simp
next
  case (Cons check rest)
  show ?case
  proof (cases "\<exists>key. CheckRequest.User check = AString key")
    case True
    then obtain key where key: "CheckRequest.User check = AString key" by blast
    with Cons.prems have rest: "\<exists>check \<in> set rest. \<forall>key. CheckRequest.User check \<noteq> AString key"
      by auto
    obtain r c' calls' where run:
      "CheckWithDetails (net i) c \<lparr>User.Key = key\<rparr> (Action check) (resourceOf check) = (r, c', calls')"
      by (cases "CheckWithDetails (net i) c \<lparr>User.Key = key\<rparr> (Action check) (resourceOf check)")
    show ?thesis
      using key run Cons.IH [OF rest] by (cases r) simp_all
  next
    case False
    then show ?thesis by (cases "CheckRequest.User check") simp_all
  qed
qed

text \<open>
  C9. An evaluation entry point can panic. A batch that holds a check whose user is not
  a string (a JSON object, a number, nil) makes \<^verbatim>\<open>BulkCheck\<close> panic at that check,
  after the checks before it were evaluated, and no decision and no error is returned.
  The resource field of the same request is read with a type switch and never panics.
\<close>

theorem BulkCheck_panics_on_non_string_user:
  "\<exists>check \<in> set checks. \<forall>key. CheckRequest.User check \<noteq> AString key \<Longrightarrow>
     fst (BulkCheck net c checks) = Inl InterfaceConversion"
proof -
  assume bad: "\<exists>check \<in> set checks. \<forall>key. CheckRequest.User check \<noteq> AString key"
  obtain r c' calls where run:
    "BulkCheck_loop net 0 checks c (replicate (length checks) zeroResult) [] = (r, c', calls)"
    by (cases "BulkCheck_loop net 0 checks c (replicate (length checks) zeroResult) []")
  with BulkCheck_loop_panics [OF bad, of net 0 c "replicate (length checks) zeroResult" "[]"]
  have "r = Inl InterfaceConversion" by simp
  with run show ?thesis by (simp add: BulkCheck_def)
qed

text \<open>
  A batch whose second check gives the user as a JSON object.
\<close>

theorem BulkCheck_panics_on_non_string_user_witness:
  "readDoc userObject \<in> set [readDoc (AString ''u1''), readDoc userObject]
   \<and> CheckRequest.User (readDoc userObject) = AMap (fmupd ''key'' (AString ''u1'') fmempty)
   \<and> fst (BulkCheck (\<lambda>i. remoteOf [''editor''] [viewer, editor]) clientScoped
            [readDoc (AString ''u1''), readDoc userObject])
       = Inl InterfaceConversion"
proof -
  have "\<exists>check \<in> set [readDoc (AString ''u1''), readDoc userObject].
          \<forall>key. CheckRequest.User check \<noteq> AString key"
    by (simp add: readDoc_def userObject_def)
  from BulkCheck_panics_on_non_string_user [OF this]
  show ?thesis by (simp add: readDoc_def userObject_def)
qed

end
